theory Spec2Isabelle
  imports Main "HOL-Library.Word" "HOL-Library.Monad_Syntax"
begin

section \<open>The string buffer of c-chess-cli (str.c) and its option parser (options.c)\<close>

text \<open>
  The C sources are embedded as HOL functions. The platform is an LP64 one:
  \<^verbatim>\<open>size_t\<close>, \<^verbatim>\<open>uintmax_t\<close> and \<^verbatim>\<open>intmax_t\<close> are 64 bits wide (the source itself asserts
  \<^verbatim>\<open>sizeof(intmax_t) <= 8\<close>), \<^verbatim>\<open>int\<close> and \<^verbatim>\<open>unsigned\<close> are 32 bits wide, and unsigned
  arithmetic wraps around. A byte is a \<^typ>\<open>char\<close>; the terminator is \<^term>\<open>CHR 0x00\<close>.

  A function that may fail to return normally yields an \<^typ>\<open>'a option\<close>: \<^term>\<open>None\<close>
  stands for a call that never returns (the loop of \<^verbatim>\<open>str_round_up\<close>), that reads or
  writes outside the storage it was given or in storage that has been released, or
  that reaches \<^verbatim>\<open>assert(false)\<close>.
  The assertions of the source on \<^verbatim>\<open>str_ok\<close> are not control flow of the model: the
  ones at function entry are hypotheses of the theorems and the ones at function exit
  are proved. \<^verbatim>\<open>malloc\<close> and \<^verbatim>\<open>realloc\<close> are taken to succeed; the bytes of fresh
  storage are arbitrary and come from a parameter \<open>junk\<close>.
\<close>

type_synonym byte = char
type_synonym size_t = "64 word"
type_synonym junk = "nat \<Rightarrow> byte"

subsection \<open>Growth policy: \<^verbatim>\<open>str_round_up\<close>\<close>

definition sizeof_size_t :: size_t where
  "sizeof_size_t = 8"

text \<open>The loop \<^verbatim>\<open>while (p2 < n) p2 *= 2;\<close> on 64-bit unsigned values.\<close>

partial_function (option) str_round_up_loop :: "size_t \<Rightarrow> size_t \<Rightarrow> size_t option" where
  "str_round_up_loop p2 n = (if p2 < n then str_round_up_loop (p2 * 2) n else Some p2)"

declare str_round_up_loop.simps [code]

definition str_round_up :: "size_t \<Rightarrow> size_t option" where
  "str_round_up n = str_round_up_loop (2 * sizeof_size_t) n"

definition is_pow2 :: "size_t \<Rightarrow> bool" where
  "is_pow2 p = (\<exists>k \<in> {0..<64}. p = 2 ^ k)"

subsection \<open>Memory\<close>

text \<open>
  A block of storage is the list of its bytes; a pointer to a block is \<^term>\<open>Some\<close> of it and
  \<^verbatim>\<open>NULL\<close> is \<^term>\<open>None\<close>. The memory a pointer into an object gives access to is the list
  of the bytes from the pointer to the end of the object, so a C string is a list that
  contains a terminator.
\<close>

definition malloc :: "junk \<Rightarrow> size_t \<Rightarrow> byte list option" where
  "malloc junk n = Some (map junk [0..<unat n])"

definition realloc :: "junk \<Rightarrow> byte list option \<Rightarrow> size_t \<Rightarrow> byte list option" where
  "realloc junk p n = (case p of None \<Rightarrow> malloc junk n
     | Some m \<Rightarrow> Some (take (unat n) m @ map junk [length m..<unat n]))"

text \<open>\<^verbatim>\<open>m[i] = c\<close>: a write outside the block has no defined result.\<close>

definition poke :: "byte list \<Rightarrow> nat \<Rightarrow> byte \<Rightarrow> byte list option" where
  "poke m i c = (if i < length m then Some (m[i := c]) else None)"

text \<open>\<^verbatim>\<open>memcpy(&dst[off], src, n)\<close> from bytes that lie outside \<open>dst\<close>.\<close>

definition memcpy :: "byte list \<Rightarrow> nat \<Rightarrow> byte list \<Rightarrow> nat \<Rightarrow> byte list option" where
  "memcpy dst off src n =
     (if off + n \<le> length dst \<and> n \<le> length src
      then Some (take off dst @ take n src @ drop (off + n) dst) else None)"

text \<open>\<^verbatim>\<open>strlen\<close> runs off the end of an object that holds no terminator.\<close>

definition strlen :: "byte list \<Rightarrow> size_t option" where
  "strlen m = (if CHR 0x00 \<in> set m
     then Some (of_nat (length (takeWhile (\<lambda>c. c \<noteq> CHR 0x00) m))) else None)"

text \<open>\<^verbatim>\<open>memchr(m, c, n) != NULL\<close>, for \<open>n\<close> within the object.\<close>

definition memchr :: "byte list \<Rightarrow> byte \<Rightarrow> nat \<Rightarrow> bool" where
  "memchr m c n = (c \<in> set (take n m))"

text \<open>The C string a pointer designates: the bytes before the first terminator.\<close>

definition c_str :: "byte list \<Rightarrow> byte list" where
  "c_str m = takeWhile (\<lambda>c. c \<noteq> CHR 0x00) m"

text \<open>The object a string literal denotes: its characters and the terminator.\<close>

definition literal :: "string \<Rightarrow> byte list" where
  "literal s = s @ [CHR 0x00]"

subsection \<open>The buffer: \<^verbatim>\<open>str_t\<close>\<close>

record str_t =
  len :: size_t
  alloc :: size_t
  buf :: "byte list option"

text \<open>
  \<^verbatim>\<open>str_ok\<close>, with its reads kept inside the storage. \<open>owns_alloc\<close> adds what C cannot
  test: the storage \<^verbatim>\<open>buf\<close> points to is \<^verbatim>\<open>alloc\<close> bytes long. \<open>content\<close> is the
  byte sequence a buffer stands for.
\<close>

definition str_ok :: "str_t \<Rightarrow> bool" where
  "str_ok s = (case str_round_up (len s + 1) of None \<Rightarrow> False
     | Some p \<Rightarrow> p \<le> alloc s \<and> (case buf s of None \<Rightarrow> False
         | Some m \<Rightarrow> unat (len s) < length m \<and> m ! unat (len s) = CHR 0x00
             \<and> CHR 0x00 \<notin> set (take (unat (len s)) m)))"

definition owns_alloc :: "str_t \<Rightarrow> bool" where
  "owns_alloc s = (case buf s of None \<Rightarrow> False | Some m \<Rightarrow> length m = unat (alloc s))"

definition str_valid :: "str_t \<Rightarrow> bool" where
  "str_valid s = (str_ok s \<and> owns_alloc s)"

definition content :: "str_t \<Rightarrow> byte list" where
  "content s = (case buf s of None \<Rightarrow> [] | Some m \<Rightarrow> take (unat (len s)) m)"

definition str_resize :: "junk \<Rightarrow> str_t \<Rightarrow> size_t \<Rightarrow> str_t option" where
  "str_resize junk s n = do {
     p \<leftarrow> str_round_up (n + 1);
     let s = s\<lparr>len := n\<rparr>;
     let s = (if alloc s < p then s\<lparr>alloc := p, buf := realloc junk (buf s) p\<rparr> else s);
     m \<leftarrow> buf s;
     m \<leftarrow> poke m (unat n) (CHR 0x00);
     Some (s\<lparr>buf := Some m\<rparr>)
   }"

definition str_new :: "junk \<Rightarrow> str_t option" where
  "str_new junk = do {
     let l = 0;
     a \<leftarrow> str_round_up (l + 1);
     m \<leftarrow> malloc junk a;
     m \<leftarrow> poke m (unat l) (CHR 0x00);
     Some \<lparr>len = l, alloc = a, buf = Some m\<rparr>
   }"

definition str_dup :: "junk \<Rightarrow> byte list \<Rightarrow> str_t option" where
  "str_dup junk src = do {
     l \<leftarrow> strlen src;
     a \<leftarrow> str_round_up (l + 1);
     m \<leftarrow> malloc junk a;
     m \<leftarrow> memcpy m 0 src (unat (l + 1));
     Some \<lparr>len = l, alloc = a, buf = Some m\<rparr>
   }"

text \<open>
  \<^verbatim>\<open>str_del\<close> returns the pointer it hands to \<^verbatim>\<open>free\<close> (\<^verbatim>\<open>free(NULL)\<close> releases nothing)
  and the handle it leaves behind.
\<close>

definition str_del :: "str_t \<Rightarrow> byte list option \<times> str_t" where
  "str_del s = (buf s, \<lparr>len = 0, alloc = 0, buf = None\<rparr>)"

subsection \<open>Pointers to the sources of a call\<close>

text \<open>
  The functions below write the storage of their destination and nothing else. A
  \<^verbatim>\<open>const char *\<close> argument is therefore one of two things: a pointer into an object the
  call does not write, given by the bytes from the pointer to the end of that object, or
  a pointer \<^verbatim>\<open>dest->buf + off\<close> into the storage of the destination. A pointer of the
  second kind names the block it was taken in by the size of the block: \<^verbatim>\<open>str_resize\<close>
  hands the storage to \<^verbatim>\<open>realloc\<close> only to enlarge it, so the blocks a destination has
  one after the other differ in size, and \<^verbatim>\<open>alloc\<close> tells which of them is live.

  \<open>load\<close> gives the memory a pointer gives access to at the time of a read: the storage
  as it is then, and nothing through a pointer into a block that \<^verbatim>\<open>realloc\<close> has
  released (the old block is released also where the new one happens to start at the
  same address). \<open>strlen_at\<close> is \<^verbatim>\<open>strlen\<close> through a pointer. The qualifier \<^verbatim>\<open>restrict\<close> of
  some of the parameters is a promise of the caller that changes nothing in what the
  functions do; it is not modelled.
\<close>

datatype pointer = Object "byte list" | Storage size_t nat

definition load :: "str_t \<Rightarrow> pointer \<Rightarrow> byte list option" where
  "load dest p = (case p of Object bytes \<Rightarrow> Some bytes
     | Storage a off \<Rightarrow> (case buf dest of None \<Rightarrow> None
         | Some m \<Rightarrow> if a = alloc dest \<and> off \<le> length m then Some (drop off m) else None))"

definition strlen_at :: "str_t \<Rightarrow> pointer \<Rightarrow> size_t option" where
  "strlen_at dest src = do {
     bytes \<leftarrow> load dest src;
     strlen bytes
   }"

text \<open>
  \<^verbatim>\<open>memcpy(&dest->buf[off], src, n)\<close>. Copying between two regions of the storage that
  overlap in part has no defined result. Copying a region onto itself leaves it as it
  is: every C library does that, where ISO C defines no result either.
\<close>

definition overlaps :: "pointer \<Rightarrow> nat \<Rightarrow> nat \<Rightarrow> bool" where
  "overlaps src off n = (case src of Object bytes \<Rightarrow> False
     | Storage a k \<Rightarrow> k \<noteq> off \<and> k < off + n \<and> off < k + n)"

definition memcpy_to :: "str_t \<Rightarrow> nat \<Rightarrow> pointer \<Rightarrow> nat \<Rightarrow> str_t option" where
  "memcpy_to dest off src n = do {
     m \<leftarrow> buf dest;
     bytes \<leftarrow> load dest src;
     m \<leftarrow> (if overlaps src off n then None else memcpy m off bytes n);
     Some (dest\<lparr>buf := Some m\<rparr>)
   }"

text \<open>
  A \<^verbatim>\<open>const str_t *\<close> argument points to the destination itself or to another buffer,
  which has storage of its own. \<open>len_of\<close> and \<open>buf_of\<close> are the reads of \<^verbatim>\<open>src->len\<close> and
  \<^verbatim>\<open>src->buf\<close>, at the time the code makes them.
\<close>

datatype str_ref = Dest | Other str_t

fun len_of :: "str_t \<Rightarrow> str_ref \<Rightarrow> size_t" where
  "len_of dest Dest = len dest"
| "len_of dest (Other s) = len s"

fun buf_of :: "str_t \<Rightarrow> str_ref \<Rightarrow> pointer option" where
  "buf_of dest Dest = map_option (\<lambda>m. Storage (alloc dest) 0) (buf dest)"
| "buf_of dest (Other s) = map_option Object (buf s)"

subsection \<open>Copying\<close>

definition do_str_cpy :: "junk \<Rightarrow> str_t \<Rightarrow> pointer \<Rightarrow> size_t \<Rightarrow> str_t option" where
  "do_str_cpy junk dest src n = do {
     dest \<leftarrow> str_resize junk dest n;
     memcpy_to dest 0 src (unat (len dest + 1))
   }"

definition str_cpy :: "junk \<Rightarrow> str_t \<Rightarrow> pointer \<Rightarrow> str_t option" where
  "str_cpy junk dest src = do {
     n \<leftarrow> strlen_at dest src;
     do_str_cpy junk dest src n
   }"

definition str_cpy_s :: "junk \<Rightarrow> str_t \<Rightarrow> str_ref \<Rightarrow> str_t option" where
  "str_cpy_s junk dest src = do {
     p \<leftarrow> buf_of dest src;
     do_str_cpy junk dest p (len_of dest src)
   }"

definition str_ncpy :: "junk \<Rightarrow> str_t \<Rightarrow> pointer \<Rightarrow> size_t \<Rightarrow> str_t option" where
  "str_ncpy junk dest src n = do {
     l \<leftarrow> strlen_at dest src;
     let n = (if l < n then l else n);
     dest \<leftarrow> do_str_cpy junk dest src n;
     m \<leftarrow> buf dest;
     m \<leftarrow> poke m (unat n) (CHR 0x00);
     Some (dest\<lparr>buf := Some m\<rparr>)
   }"

subsection \<open>Appending\<close>

text \<open>
  The variadic functions take the list of their arguments after \<open>dest\<close>. Reading an
  argument past the end of the list has no defined result. \<^verbatim>\<open>_str_putc\<close>, \<^verbatim>\<open>_str_cat\<close>
  and \<^verbatim>\<open>_str_cat_s\<close> are named \<open>str_putc_va\<close>, \<open>str_cat_va\<close> and \<open>str_cat_s_va\<close> here.
  \<^verbatim>\<open>(char)next\<close> keeps the low eight bits of the \<^verbatim>\<open>int\<close>.
\<close>

fun str_putc_va :: "junk \<Rightarrow> str_t \<Rightarrow> int list \<Rightarrow> str_t option" where
  "str_putc_va junk dest [] = None"
| "str_putc_va junk dest (next # args) =
     (if next \<noteq> 0 then do {
        dest \<leftarrow> str_resize junk dest (len dest + 1);
        m \<leftarrow> buf dest;
        m \<leftarrow> poke m (unat (len dest - 1)) (char_of next);
        str_putc_va junk (dest\<lparr>buf := Some m\<rparr>) args
      } else Some dest)"

text \<open>
  In \<^verbatim>\<open>do_str_cat\<close> the pointer \<open>src\<close> is read by \<^verbatim>\<open>memcpy\<close>, after \<^verbatim>\<open>str_resize\<close>: a source
  inside the storage of \<open>dest\<close> is gone by then when the storage had to grow.
\<close>

definition do_str_cat :: "junk \<Rightarrow> str_t \<Rightarrow> pointer \<Rightarrow> size_t \<Rightarrow> str_t option" where
  "do_str_cat junk dest src n = do {
     let oldLen = len dest;
     dest \<leftarrow> str_resize junk dest (oldLen + n);
     memcpy_to dest (unat oldLen) src (unat n)
   }"

definition str_ncat :: "junk \<Rightarrow> str_t \<Rightarrow> pointer \<Rightarrow> size_t \<Rightarrow> str_t option" where
  "str_ncat junk dest src n = do {
     l \<leftarrow> strlen_at dest src;
     let n = (if l < n then l else n);
     do_str_cat junk dest src n
   }"

fun str_cat_va :: "junk \<Rightarrow> str_t \<Rightarrow> pointer option list \<Rightarrow> str_t option" where
  "str_cat_va junk dest [] = None"
| "str_cat_va junk dest (None # args) = Some dest"
| "str_cat_va junk dest (Some next # args) = do {
     n \<leftarrow> strlen_at dest next;
     dest \<leftarrow> do_str_cat junk dest next n;
     str_cat_va junk dest args
   }"

fun str_cat_s_va :: "junk \<Rightarrow> str_t \<Rightarrow> str_ref option list \<Rightarrow> str_t option" where
  "str_cat_s_va junk dest [] = None"
| "str_cat_s_va junk dest (None # args) = Some dest"
| "str_cat_s_va junk dest (Some next # args) = do {
     p \<leftarrow> buf_of dest next;
     dest \<leftarrow> do_str_cat junk dest p (len_of dest next);
     str_cat_s_va junk dest args
   }"

text \<open>
  Modelled from the spec: the macros \<^verbatim>\<open>str_putc\<close>, \<^verbatim>\<open>str_cat\<close> and \<^verbatim>\<open>str_cat_s\<close> of
  \<^verbatim>\<open>str.h\<close>, which is not among the sources. The specification has them take an ordered
  sequence that ends at an explicit end marker: they pass their arguments on, followed
  by the marker the loop of the variadic function stops at.
\<close>

definition str_putc :: "junk \<Rightarrow> str_t \<Rightarrow> int list \<Rightarrow> str_t option" where
  "str_putc junk dest cs = str_putc_va junk dest (cs @ [0])"

definition str_cat :: "junk \<Rightarrow> str_t \<Rightarrow> pointer list \<Rightarrow> str_t option" where
  "str_cat junk dest srcs = str_cat_va junk dest (map Some srcs @ [None])"

definition str_cat_s :: "junk \<Rightarrow> str_t \<Rightarrow> str_ref list \<Rightarrow> str_t option" where
  "str_cat_s junk dest srcs = str_cat_s_va junk dest (map Some srcs @ [None])"

subsection \<open>Tokenizer: \<^verbatim>\<open>str_tok\<close>\<close>

text \<open>
  Promotion of a plain \<^verbatim>\<open>char\<close> (signed on this platform) to \<^verbatim>\<open>int\<close>, as the argument of
  \<^verbatim>\<open>str_putc\<close> undergoes it.
\<close>

definition int_of_char :: "byte \<Rightarrow> int" where
  "int_of_char c = (if of_char c < (128::int) then of_char c else of_char c - 256)"

text \<open>The loop \<^verbatim>\<open>while ((c = *s)) { if (memchr(delim, c, n)) s++; else break; }\<close>.\<close>

fun eat_delimiters :: "byte list \<Rightarrow> byte list \<Rightarrow> nat \<Rightarrow> byte list option" where
  "eat_delimiters [] delim n = None"
| "eat_delimiters (c # s) delim n =
     (if c \<noteq> CHR 0x00 then
        (if memchr delim c n then eat_delimiters s delim n else Some (c # s))
      else Some (c # s))"

text \<open>
  The loop \<^verbatim>\<open>while ((c = *s)) { if (!memchr(delim, c, n)) { str_putc(token, c); s++; } else break; }\<close>.
\<close>

fun eat_token :: "junk \<Rightarrow> byte list \<Rightarrow> str_t \<Rightarrow> byte list \<Rightarrow> nat \<Rightarrow> (byte list \<times> str_t) option" where
  "eat_token junk [] token delim n = None"
| "eat_token junk (c # s) token delim n =
     (if c \<noteq> CHR 0x00 then
        (if \<not> memchr delim c n then do {
           token \<leftarrow> str_putc junk token [int_of_char c];
           eat_token junk s token delim n
         } else Some (c # s, token))
      else Some (c # s, token))"

text \<open>
  The result is the returned pointer (\<^term>\<open>None\<close> for \<^verbatim>\<open>NULL\<close>) and the token buffer. The
  input and the delimiters are C strings outside the storage of the token buffer.
\<close>

definition str_tok ::
  "junk \<Rightarrow> byte list option \<Rightarrow> str_t \<Rightarrow> byte list \<Rightarrow> (byte list option \<times> str_t) option" where
  "str_tok junk s token delim =
     (case s of None \<Rightarrow> Some (None, token)
      | Some s \<Rightarrow> do {
          token \<leftarrow> str_cpy junk token (Object (literal ''''));
          n \<leftarrow> strlen delim;
          s \<leftarrow> eat_delimiters s delim (unat n);
          (s, token) \<leftarrow> eat_token junk s token delim (unat n);
          Some (if len token \<noteq> 0 then Some s else None, token)
        })"

subsection \<open>Line reader: \<^verbatim>\<open>str_getline\<close>\<close>

text \<open>
  The stream is the list of the bytes still to be read; \<^verbatim>\<open>getc_unlocked\<close> returns the next
  one as an \<^verbatim>\<open>unsigned char\<close> converted to \<^verbatim>\<open>int\<close>, or \<^verbatim>\<open>EOF\<close> at the end. The newline
  \<^verbatim>\<open>'\n'\<close> is 10. The locking of the stream is not modelled.
\<close>

definition EOF :: int where
  "EOF = - 1"

fun getline_loop :: "junk \<Rightarrow> str_t \<Rightarrow> byte list \<Rightarrow> (str_t \<times> int \<times> byte list) option" where
  "getline_loop junk out [] = Some (out, EOF, [])"
| "getline_loop junk out (b # inp) =
     (let c = of_char b in
      if c \<noteq> 10 \<and> c \<noteq> EOF then do {
        out \<leftarrow> str_putc junk out [c];
        getline_loop junk out inp
      } else Some (out, c, inp))"

text \<open>The result is the buffer, the returned count and the rest of the stream.\<close>

definition str_getline :: "junk \<Rightarrow> str_t \<Rightarrow> byte list \<Rightarrow> (str_t \<times> size_t \<times> byte list) option" where
  "str_getline junk out inp = do {
     out \<leftarrow> str_cpy junk out (Object (literal ''''));
     (out, c, inp) \<leftarrow> getline_loop junk out inp;
     let n = len out + (if c = 10 then 1 else 0);
     Some (out, n, inp)
   }"


subsection \<open>Format engine: \<^verbatim>\<open>do_fmt_u\<close> and \<^verbatim>\<open>str_cat_fmt\<close>\<close>

type_synonym uintmax_t = "64 word"
type_synonym intmax_t = "64 word"

text \<open>
  The scratch array and an index into it stand for the pointer \<^verbatim>\<open>s\<close>. \<^verbatim>\<open>*s-- = c\<close> writes at
  the index and steps it down; stepping below the start of the array has no defined
  result. The loop is \<^verbatim>\<open>do { *s-- = '0' + n % 10; } while (n /= 10);\<close>, and \<open>'0'\<close> is 48.
\<close>

fun do_fmt_u_loop :: "uintmax_t \<Rightarrow> byte list \<Rightarrow> nat \<Rightarrow> (byte list \<times> nat) option" where
  "do_fmt_u_loop n b 0 = None"
| "do_fmt_u_loop n b (Suc s) = do {
     b \<leftarrow> poke b (Suc s) (char_of (48 + unat (n mod 10)));
     if n div 10 \<noteq> 0 then do_fmt_u_loop (n div 10) b s else Some (b, s)
   }"

text \<open>The result is the array and the index of the first digit (\<^verbatim>\<open>return s + 1\<close>).\<close>

definition do_fmt_u :: "uintmax_t \<Rightarrow> byte list \<Rightarrow> nat \<Rightarrow> (byte list \<times> nat) option" where
  "do_fmt_u n b s = do {
     b \<leftarrow> poke b s (CHR 0x00);
     (b, s) \<leftarrow> (case s of 0 \<Rightarrow> None | Suc s \<Rightarrow> do_fmt_u_loop n b s);
     Some (b, s + 1)
   }"

text \<open>
  The variable arguments, each with the type the caller passed it at. \<^verbatim>\<open>va_arg\<close> at
  another type, or past the last argument, has no defined result.
\<close>

datatype fmt_arg =
  Arg_str pointer
  | Arg_str_t str_ref
  | Arg_int "32 word"
  | Arg_intmax intmax_t
  | Arg_unsigned "32 word"
  | Arg_uintmax uintmax_t

text \<open>\<^verbatim>\<open>imaxabs\<close> negates in two's complement, so it maps the least value to itself.\<close>

definition imaxabs :: "intmax_t \<Rightarrow> intmax_t" where
  "imaxabs i = (if sint i < 0 then - i else i)"

text \<open>
  \<^verbatim>\<open>str_cat(dest, do_fmt_u(n, &buf[sizeof(buf) - 1]))\<close> on the uninitialised
  \<^verbatim>\<open>char buf[24]\<close>, with the sign written in front for \<open>neg\<close>.
\<close>

definition cat_number :: "junk \<Rightarrow> str_t \<Rightarrow> uintmax_t \<Rightarrow> bool \<Rightarrow> str_t option" where
  "cat_number junk dest n neg = do {
     (b, s) \<leftarrow> do_fmt_u n (map junk [0..<24]) (24 - 1);
     (b, s) \<leftarrow> (if neg then (case s of 0 \<Rightarrow> None
                  | Suc s \<Rightarrow> map_option (\<lambda>b. (b, s)) (poke b s (CHR ''-''))) else Some (b, s));
     str_cat junk dest [Object (drop s b)]
   }"

text \<open>The chain of tests on \<^verbatim>\<open>pct[1]\<close>; its last branch is \<^verbatim>\<open>assert(false)\<close>.\<close>

fun fmt_specifier ::
  "junk \<Rightarrow> str_t \<Rightarrow> byte \<Rightarrow> fmt_arg list \<Rightarrow> (str_t \<times> fmt_arg list) option" where
  "fmt_specifier junk dest c args =
     (if c = CHR ''s'' then
        (case args of Arg_str s # args \<Rightarrow> map_option (\<lambda>d. (d, args)) (str_cat junk dest [s])
         | _ \<Rightarrow> None)
      else if c = CHR ''S'' then
        (case args of Arg_str_t s # args \<Rightarrow> map_option (\<lambda>d. (d, args)) (str_cat_s junk dest [s])
         | _ \<Rightarrow> None)
      else if c = CHR ''i'' \<or> c = CHR ''I'' then
        (case (if c = CHR ''i''
               then (case args of Arg_int i # args \<Rightarrow> Some (scast i, args) | _ \<Rightarrow> None)
               else (case args of Arg_intmax i # args \<Rightarrow> Some (i, args) | _ \<Rightarrow> None)) of
           None \<Rightarrow> None
         | Some (i, args) \<Rightarrow>
             map_option (\<lambda>d. (d, args)) (cat_number junk dest (imaxabs i) (sint i < 0)))
      else if c = CHR ''u'' then
        (case args of Arg_unsigned u # args \<Rightarrow>
           map_option (\<lambda>d. (d, args)) (cat_number junk dest (ucast u) False)
         | _ \<Rightarrow> None)
      else if c = CHR ''U'' then
        (case args of Arg_uintmax u # args \<Rightarrow>
           map_option (\<lambda>d. (d, args)) (cat_number junk dest u False)
         | _ \<Rightarrow> None)
      else None)"

text \<open>
  The loop \<^verbatim>\<open>while (bytesLeft) { ... }\<close>. The template lies in an object of its own, which
  the call does not write; \<open>fmt\<close> is the template from the current pointer on, \<open>i\<close> is
  \<^verbatim>\<open>pct - fmt\<close>. \<^verbatim>\<open>memchr\<close> must stay inside the template, and so must the read of \<^verbatim>\<open>pct[1]\<close>.
\<close>

function str_cat_fmt_loop ::
  "junk \<Rightarrow> str_t \<Rightarrow> byte list \<Rightarrow> size_t \<Rightarrow> fmt_arg list \<Rightarrow> str_t option" where
  "str_cat_fmt_loop junk dest fmt bytesLeft args =
     (if bytesLeft = 0 then Some dest
      else if length fmt < unat bytesLeft then None
      else if \<not> memchr fmt (CHR ''%'') (unat bytesLeft) then str_cat junk dest [Object fmt]
      else let i = length (takeWhile (\<lambda>c. c \<noteq> CHR ''%'') fmt) in
        if length fmt \<le> i + 1 then None
        else do {
          dest \<leftarrow> (if 0 < i then str_ncat junk dest (Object fmt) (of_nat i) else Some dest);
          (dest, args) \<leftarrow> fmt_specifier junk dest (fmt ! (i + 1)) args;
          str_cat_fmt_loop junk dest (drop (i + 2) fmt) (bytesLeft - of_nat (i + 2)) args
        })"
  by pat_completeness auto
termination
  by (relation "measure (\<lambda>(junk, dest, fmt, bytesLeft, args). length fmt)") auto

declare str_cat_fmt_loop.simps [simp del]

definition str_cat_fmt :: "junk \<Rightarrow> str_t \<Rightarrow> byte list \<Rightarrow> fmt_arg list \<Rightarrow> str_t option" where
  "str_cat_fmt junk dest fmt args = do {
     bytesLeft \<leftarrow> strlen fmt;
     str_cat_fmt_loop junk dest fmt bytesLeft args
   }"


subsection \<open>What the specification says of the format engine\<close>

text \<open>
  The decimal representation of a number, most significant digit first, and with a
  leading minus sign for a negative one.
\<close>

fun decimal :: "nat \<Rightarrow> byte list" where
  "decimal n = (if n < 10 then [char_of (48 + n)] else decimal (n div 10) @ [char_of (48 + n mod 10)])"

declare decimal.simps [simp del]

definition decimal_int :: "int \<Rightarrow> byte list" where
  "decimal_int i = (if i < 0 then CHR ''-'' # decimal (nat (- i)) else decimal (nat i))"

text \<open>
  The table of section 4.6: what a specifier appends for the argument it consumes; no
  result for a specifier outside the table or an argument of another kind. The table
  speaks of a string and of a buffer that are objects of their own, so there is no
  result either for an argument that points into the destination.
\<close>

fun render_specifier :: "byte \<Rightarrow> fmt_arg \<Rightarrow> byte list option" where
  "render_specifier c (Arg_str (Object s)) = (if c = CHR ''s'' then Some (c_str s) else None)"
| "render_specifier c (Arg_str (Storage a off)) = None"
| "render_specifier c (Arg_str_t (Other s)) = (if c = CHR ''S'' then Some (content s) else None)"
| "render_specifier c (Arg_str_t Dest) = None"
| "render_specifier c (Arg_int i) = (if c = CHR ''i'' then Some (decimal_int (sint i)) else None)"
| "render_specifier c (Arg_intmax i) = (if c = CHR ''I'' then Some (decimal_int (sint i)) else None)"
| "render_specifier c (Arg_unsigned u) = (if c = CHR ''u'' then Some (decimal (unat u)) else None)"
| "render_specifier c (Arg_uintmax u) = (if c = CHR ''U'' then Some (decimal (unat u)) else None)"

text \<open>
  The text a template stands for: literal bytes verbatim, and for each two-byte specifier
  the rendering of the next argument.
\<close>

fun render :: "byte list \<Rightarrow> fmt_arg list \<Rightarrow> byte list option" where
  "render [] args = Some []"
| "render [c] args = (if c = CHR ''%'' then None else Some [c])"
| "render (c # x # t) args =
     (if c = CHR ''%'' then
        (case args of [] \<Rightarrow> None
         | a # args \<Rightarrow> (case render_specifier x a of None \<Rightarrow> None
             | Some r \<Rightarrow> map_option (\<lambda>rest. r @ rest) (render t args)))
      else map_option (\<lambda>rest. c # rest) (render (x # t) args))"


text \<open>
  What \<^verbatim>\<open>cat_number\<close> is to append, and what is asked of an argument: a C string is
  terminated, a buffer is valid, and both lie outside the storage of the destination.
\<close>

definition number_text :: "uintmax_t \<Rightarrow> bool \<Rightarrow> byte list" where
  "number_text n neg = (if neg then CHR ''-'' # decimal (unat n) else decimal (unat n))"

fun arg_ok :: "fmt_arg \<Rightarrow> bool" where
  "arg_ok (Arg_str (Object s)) = (CHR 0x00 \<in> set s)"
| "arg_ok (Arg_str (Storage a off)) = False"
| "arg_ok (Arg_str_t (Other s)) = str_valid s"
| "arg_ok (Arg_str_t Dest) = False"
| "arg_ok _ = True"

subsection \<open>The option parser: \<^verbatim>\<open>options_new\<close>\<close>

record Options =
  chess960 :: bool
  concurrency :: "32 word"
  games :: "32 word"
  openings :: str_t
  random :: bool
  repeat :: bool

text \<open>
  Modelled from the spec: \<^verbatim>\<open>die\<close> of \<^verbatim>\<open>util.c\<close>, which is not among the sources. The
  specification has it print a diagnostic and terminate the process with a non-zero
  status; here it ends the parse with the failure \<open>Die\<close> and the call site's message.
  A failed \<^verbatim>\<open>assert\<close> aborts the process instead.
\<close>

datatype die_message =
  Value_expected_found_tag string string
  | Invalid_tag string
  | Tag_expected_found_value string string
  | Value_expected_after string

datatype failure = Die die_message | Assertion_failed | No_result

text \<open>\<^verbatim>\<open>strstr(h, n) != NULL\<close>: \<open>n\<close> occurs in \<open>h\<close> as a block of consecutive characters.\<close>

fun strstr :: "string \<Rightarrow> string \<Rightarrow> bool" where
  "strstr [] n = (n = [])"
| "strstr (c # h) n = (take (length n) (c # h) = n \<or> strstr h n)"

text \<open>
  \<^verbatim>\<open>atoi\<close>: white space, an optional sign, and the decimal digits that follow. The result
  is the \<^verbatim>\<open>int\<close> the C library computes as \<^verbatim>\<open>(int) strtol(s, NULL, 10)\<close>: \<^verbatim>\<open>strtol\<close>
  keeps the number within the range of \<^verbatim>\<open>long\<close> and the conversion to the 32-bit \<^verbatim>\<open>int\<close>
  keeps its low 32 bits. (ISO C defines no result for a number outside the range of
  \<^verbatim>\<open>int\<close>.)
\<close>

definition atoi :: "string \<Rightarrow> 32 word" where
  "atoi s =
     (let s = dropWhile (\<lambda>c. c \<in> set [CHR '' '', CHR 0x09, CHR 0x0A, CHR 0x0B, CHR 0x0C, CHR 0x0D]) s;
          neg = (s \<noteq> [] \<and> hd s = CHR ''-'');
          s = (if s \<noteq> [] \<and> (hd s = CHR ''-'' \<or> hd s = CHR ''+'') then tl s else s);
          ds = takeWhile (\<lambda>c. (48::int) \<le> of_char c \<and> of_char c \<le> (57::int)) s;
          v = foldl (\<lambda>a c. 10 * a + (of_char c - 48)) 0 ds;
          l = max (- (2 ^ 63)) (min (2 ^ 63 - 1) (if neg then - v else v))
      in of_int l)"

text \<open>
  The body of the \<^verbatim>\<open>for\<close> loop at \<open>arg\<close> = \<^verbatim>\<open>argv[i]\<close>, with \<open>prev\<close> for \<^verbatim>\<open>argv[i - 1]\<close>;
  the state is \<^verbatim>\<open>options\<close> and \<^verbatim>\<open>expectValue\<close>. \<open>ndebug\<close> tells whether the program was
  compiled with \<^verbatim>\<open>NDEBUG\<close>, which removes the \<^verbatim>\<open>assert\<close>.
\<close>

definition options_step ::
  "bool \<Rightarrow> junk \<Rightarrow> string \<Rightarrow> string \<Rightarrow> Options \<times> bool \<Rightarrow> failure + Options \<times> bool" where
  "options_step ndebug junk prev arg st =
     (let options = fst st; expectValue = snd st in
      if arg \<noteq> [] \<and> hd arg = CHR ''-'' then
        (if expectValue then Inl (Die (Value_expected_found_tag prev arg))
         else if strstr ''-concurrency -games -openings'' arg then Inr (options, True)
         else if arg = ''-chess960'' then Inr (options\<lparr>chess960 := True\<rparr>, expectValue)
         else if arg = ''-random'' then Inr (options\<lparr>random := True\<rparr>, expectValue)
         else if arg = ''-repeat'' then Inr (options\<lparr>repeat := True\<rparr>, expectValue)
         else Inl (Die (Invalid_tag arg)))
      else
        (if \<not> expectValue then Inl (Die (Tag_expected_found_value prev arg))
         else if prev = ''-concurrency'' then Inr (options\<lparr>concurrency := atoi arg\<rparr>, False)
         else if prev = ''-games'' then Inr (options\<lparr>games := atoi arg\<rparr>, False)
         else if \<not> ndebug \<and> prev \<noteq> ''-openings'' then Inl Assertion_failed
         else (case str_cpy junk (openings options) (Object (literal arg)) of
             None \<Rightarrow> Inl No_result
           | Some s \<Rightarrow> Inr (options\<lparr>openings := s\<rparr>, False))))"

text \<open>
  The loop over \<^verbatim>\<open>argv[i], ..., argv[argc - 1]\<close>, followed by the test after the loop.
\<close>

fun options_loop ::
  "bool \<Rightarrow> junk \<Rightarrow> string \<Rightarrow> string list \<Rightarrow> Options \<times> bool \<Rightarrow> failure + Options" where
  "options_loop ndebug junk prev [] st =
     (if snd st then Inl (Die (Value_expected_after prev)) else Inr (fst st))"
| "options_loop ndebug junk prev (arg # rest) st =
     (case options_step ndebug junk prev arg st of
        Inl e \<Rightarrow> Inl e
      | Inr st \<Rightarrow> options_loop ndebug junk arg rest st)"

definition options_new :: "bool \<Rightarrow> junk \<Rightarrow> string list \<Rightarrow> failure + Options" where
  "options_new ndebug junk argv =
     (case str_new junk of None \<Rightarrow> Inl No_result
      | Some s \<Rightarrow>
          options_loop ndebug junk (case argv of [] \<Rightarrow> [] | prog # _ \<Rightarrow> prog) (drop 1 argv)
            (\<lparr>chess960 = False, concurrency = 1, games = 1, openings = s,
              random = False, repeat = False\<rparr>, False))"

subsection \<open>What the specification says of the tokenizer\<close>




subsection \<open>The public \<open>append\<close>\<close>

text \<open>
  The \<open>append\<close> of the specification takes an ordered list of fragments, each a raw byte
  sequence or a buffer. The code offers \<^verbatim>\<open>str_cat\<close> for a list of C strings and
  \<^verbatim>\<open>str_cat_s\<close> for a list of buffers, so a list of fragments is appended by a sequence of
  calls, each with the fragments of one kind that follow each other.

  \<open>string_ok\<close> and \<open>buffer_ok\<close> say when a fragment is an object of its own that meets the
  assertion at function entry: a terminated C string outside the storage of the
  destination, a valid buffer other than the destination. \<open>string_bytes\<close> and
  \<open>buffer_bytes\<close> are the bytes of such a fragment.
\<close>

fun string_ok :: "pointer \<Rightarrow> bool" where
  "string_ok (Object s) = (CHR 0x00 \<in> set s)"
| "string_ok (Storage a off) = False"

fun string_bytes :: "pointer \<Rightarrow> byte list" where
  "string_bytes (Object s) = c_str s"
| "string_bytes (Storage a off) = []"

fun buffer_ok :: "str_ref \<Rightarrow> bool" where
  "buffer_ok (Other s) = str_valid s"
| "buffer_ok Dest = False"

fun buffer_bytes :: "str_ref \<Rightarrow> byte list" where
  "buffer_bytes (Other s) = content s"
| "buffer_bytes Dest = []"

datatype append_call = Cat "pointer list" | Cat_s "str_ref list"

fun run_append_call :: "junk \<Rightarrow> str_t \<Rightarrow> append_call \<Rightarrow> str_t option" where
  "run_append_call junk dest (Cat srcs) = str_cat junk dest srcs"
| "run_append_call junk dest (Cat_s srcs) = str_cat_s junk dest srcs"

fun append_calls :: "junk \<Rightarrow> str_t \<Rightarrow> append_call list \<Rightarrow> str_t option" where
  "append_calls junk dest [] = Some dest"
| "append_calls junk dest (c # cs) = do { dest \<leftarrow> run_append_call junk dest c; append_calls junk dest cs }"

fun fragments_ok :: "append_call \<Rightarrow> bool" where
  "fragments_ok (Cat srcs) = list_all string_ok srcs"
| "fragments_ok (Cat_s srcs) = list_all buffer_ok srcs"

fun fragment_bytes :: "append_call \<Rightarrow> byte list" where
  "fragment_bytes (Cat srcs) = concat (map string_bytes srcs)"
| "fragment_bytes (Cat_s srcs) = concat (map buffer_bytes srcs)"

subsection \<open>Sequences of public operations\<close>

text \<open>
  A buffer comes from \<^verbatim>\<open>str_new\<close> or \<^verbatim>\<open>str_dup\<close>, and the public mutating operations are
  \<^verbatim>\<open>str_cpy\<close>, \<^verbatim>\<open>str_cpy_s\<close>, \<^verbatim>\<open>str_ncpy\<close>, \<^verbatim>\<open>str_cat\<close>, \<^verbatim>\<open>str_cat_s\<close>, \<^verbatim>\<open>str_ncat\<close>, \<^verbatim>\<open>str_putc\<close>
  and \<^verbatim>\<open>str_cat_fmt\<close>. The characters of \<^verbatim>\<open>str_putc\<close> are bytes, promoted to \<^verbatim>\<open>int\<close> as the
  arguments of a variadic function are. \<open>run_ops\<close> gives the buffer after each operation.

  \<open>constructor_ok\<close> and \<open>op_ok\<close> say what the functions assert or need of their arguments,
  for sources that are objects of their own: a C string is terminated and lies outside
  the storage of the destination, a source buffer is valid and is not the destination, a
  template is one of the format language and its arguments are of the kinds it names.
  The one source inside the destination that \<open>op_ok\<close> admits is that of the self-copy
  \<^verbatim>\<open>str_cpy_s(a, a)\<close>. \<open>constructor_bytes\<close> and \<open>op_bytes\<close> count the bytes a call handles.
\<close>

datatype constructor = Create | Create_from "byte list"

fun construct :: "junk \<Rightarrow> constructor \<Rightarrow> str_t option" where
  "construct junk Create = str_new junk"
| "construct junk (Create_from src) = str_dup junk src"

datatype buffer_op =
  Copy_from pointer
  | Copy_from_buffer str_ref
  | Copy_bounded pointer size_t
  | Append "pointer list"
  | Append_buffers "str_ref list"
  | Append_bounded pointer size_t
  | Append_chars "byte list"
  | Append_formatted "byte list" "fmt_arg list"

fun apply_op :: "junk \<Rightarrow> str_t \<Rightarrow> buffer_op \<Rightarrow> str_t option" where
  "apply_op junk dest (Copy_from src) = str_cpy junk dest src"
| "apply_op junk dest (Copy_from_buffer src) = str_cpy_s junk dest src"
| "apply_op junk dest (Copy_bounded src n) = str_ncpy junk dest src n"
| "apply_op junk dest (Append srcs) = str_cat junk dest srcs"
| "apply_op junk dest (Append_buffers srcs) = str_cat_s junk dest srcs"
| "apply_op junk dest (Append_bounded src n) = str_ncat junk dest src n"
| "apply_op junk dest (Append_chars cs) = str_putc junk dest (map int_of_char cs)"
| "apply_op junk dest (Append_formatted fmt args) = str_cat_fmt junk dest fmt args"

fun run_ops :: "junk \<Rightarrow> str_t \<Rightarrow> buffer_op list \<Rightarrow> str_t list option" where
  "run_ops junk dest [] = Some []"
| "run_ops junk dest (x # xs) = do {
     dest \<leftarrow> apply_op junk dest x;
     rest \<leftarrow> run_ops junk dest xs;
     Some (dest # rest)
   }"

fun constructor_ok :: "constructor \<Rightarrow> bool" where
  "constructor_ok Create = True"
| "constructor_ok (Create_from src) = (CHR 0x00 \<in> set src)"

fun constructor_bytes :: "constructor \<Rightarrow> nat" where
  "constructor_bytes Create = 0"
| "constructor_bytes (Create_from src) = length (c_str src)"

fun op_ok :: "buffer_op \<Rightarrow> bool" where
  "op_ok (Copy_from src) = string_ok src"
| "op_ok (Copy_from_buffer src) = (case src of Dest \<Rightarrow> True | Other s \<Rightarrow> str_valid s)"
| "op_ok (Copy_bounded src n) = string_ok src"
| "op_ok (Append srcs) = list_all string_ok srcs"
| "op_ok (Append_buffers srcs) = list_all buffer_ok srcs"
| "op_ok (Append_bounded src n) = string_ok src"
| "op_ok (Append_chars cs) = True"
| "op_ok (Append_formatted fmt args) =
     (CHR 0x00 \<in> set fmt \<and> render (c_str fmt) args \<noteq> None \<and> list_all arg_ok args)"

fun op_bytes :: "buffer_op \<Rightarrow> nat" where
  "op_bytes (Copy_from src) = length (string_bytes src)"
| "op_bytes (Copy_from_buffer src) = length (buffer_bytes src)"
| "op_bytes (Copy_bounded src n) = length (string_bytes src)"
| "op_bytes (Append srcs) = length (concat (map string_bytes srcs))"
| "op_bytes (Append_buffers srcs) = length (concat (map buffer_bytes srcs))"
| "op_bytes (Append_bounded src n) = length (string_bytes src)"
| "op_bytes (Append_chars cs) = length cs"
| "op_bytes (Append_formatted fmt args) =
     length (c_str fmt) + (case render (c_str fmt) args of None \<Rightarrow> 0 | Some r \<Rightarrow> length r)"

subsection \<open>Buffers and arguments of the examples\<close>

definition junk0 :: junk where
  "junk0 = (\<lambda>i. CHR ''?'')"

definition token_a :: str_t where
  "token_a = \<lparr>len = 1, alloc = 16, buf = Some (''a'' @ CHR 0x00 # replicate 14 (CHR ''?''))\<rparr>"

definition buffer_ab :: str_t where
  "buffer_ab = \<lparr>len = 2, alloc = 16, buf = Some (''ab'' @ CHR 0x00 # replicate 13 (CHR ''?''))\<rparr>"

definition buffer_ef :: str_t where
  "buffer_ef = \<lparr>len = 2, alloc = 16, buf = Some (''ef'' @ CHR 0x00 # replicate 13 (CHR ''?''))\<rparr>"

definition example_ops :: "buffer_op list" where
  "example_ops =
     [Append [Object (literal ''cd'')], Append_buffers [Other buffer_ef],
      Copy_bounded (Object (literal ''hello'')) 3, Append_chars ''xy'',
      Append_formatted (literal ''%i apples, %u oranges'') [Arg_int (- 5), Arg_unsigned 3],
      Copy_from (Object (literal ''z'')), Copy_from_buffer (Other buffer_ab),
      Append_bounded (Object (literal ''hi'')) 10, Copy_from_buffer Dest]"

text \<open>
  The buffers that \<^verbatim>\<open>str_dup\<close> makes of \<open>"abcdefgh"\<close>, whose storage of 16 bytes is too small
  once eight more bytes are appended, and of \<open>"abxc"\<close>.
\<close>

definition buffer_abcdefgh :: str_t where
  "buffer_abcdefgh =
     \<lparr>len = 8, alloc = 16, buf = Some (''abcdefgh'' @ CHR 0x00 # replicate 7 (CHR ''?''))\<rparr>"

definition buffer_abxc :: str_t where
  "buffer_abxc = \<lparr>len = 4, alloc = 16, buf = Some (''abxc'' @ CHR 0x00 # replicate 11 (CHR ''?''))\<rparr>"

section \<open>Facts\<close>

subsection \<open>Facts about \<^const>\<open>str_round_up\<close>\<close>

lemma unat_pow2: "k < 64 \<Longrightarrow> unat ((2::size_t) ^ k) = 2 ^ k"
proof -
  assume k: "k < 64"
  have "(2::size_t) ^ k = of_nat (2 ^ k)" by simp
  then have "unat ((2::size_t) ^ k) = 2 ^ k mod 2 ^ 64" by (simp only: unat_of_nat) simp
  moreover have "(2::nat) ^ k < 2 ^ 64" using k by (intro power_strict_increasing) auto
  ultimately show ?thesis by simp
qed

lemma pow2_le: "j \<le> i \<Longrightarrow> i < 64 \<Longrightarrow> (2::size_t) ^ j \<le> 2 ^ i"
  by (simp add: word_le_nat_alt unat_pow2)

lemma pow2_less_iff: "j < 64 \<Longrightarrow> i < 64 \<Longrightarrow> (2::size_t) ^ j < 2 ^ i \<longleftrightarrow> j < i"
  by (simp add: word_less_nat_alt unat_pow2)

lemma str_round_up_loop_pow2:
  "k \<le> 63 \<Longrightarrow> n \<le> 2 ^ 63 \<Longrightarrow>
   \<exists>j. k \<le> j \<and> j \<le> 63 \<and> str_round_up_loop (2 ^ k) n = Some (2 ^ j) \<and> n \<le> 2 ^ j
     \<and> (j = k \<or> 2 ^ (j - 1) < n)"
proof (induction "63 - k" arbitrary: k)
  case 0
  then have "k = 63" by simp
  with 0 show ?case by (subst str_round_up_loop.simps) auto
next
  case (Suc d)
  then have k: "k < 63" by simp
  show ?case
  proof (cases "(2::size_t) ^ k < n")
    case False
    then show ?thesis using k by (subst str_round_up_loop.simps) auto
  next
    case True
    have "\<exists>j. Suc k \<le> j \<and> j \<le> 63 \<and> str_round_up_loop (2 ^ Suc k) n = Some (2 ^ j) \<and> n \<le> 2 ^ j
        \<and> (j = Suc k \<or> 2 ^ (j - 1) < n)"
      using Suc k by (intro Suc.hyps) auto
    then obtain j where j: "Suc k \<le> j" "j \<le> 63" "str_round_up_loop (2 ^ Suc k) n = Some (2 ^ j)"
      "n \<le> 2 ^ j" "j = Suc k \<or> 2 ^ (j - 1) < n" by blast
    have "str_round_up_loop (2 ^ k) n = Some (2 ^ j)"
      using True j(3) by (subst str_round_up_loop.simps) (simp add: mult.commute)
    moreover have "2 ^ (j - 1) < n" using j(5) True by auto
    ultimately show ?thesis using j by (intro exI[of _ j]) auto
  qed
qed

text \<open>The result for every request of at most \<open>2 ^ 63\<close> bytes.\<close>

lemma str_round_up_Some:
  assumes "n \<le> 2 ^ 63"
  shows "\<exists>j. 4 \<le> j \<and> j \<le> 63 \<and> str_round_up n = Some (2 ^ j) \<and> n \<le> 2 ^ j \<and> (j = 4 \<or> 2 ^ (j - 1) < n)"
proof -
  have "(2::size_t) * sizeof_size_t = 2 ^ 4" by (simp add: sizeof_size_t_def)
  then show ?thesis
    using str_round_up_loop_pow2[of 4 n] assms by (simp add: str_round_up_def)
qed

lemma str_round_up_least:
  assumes "n \<le> 2 ^ 63" and "str_round_up n = Some p"
    and "is_pow2 r" and "2 * sizeof_size_t \<le> r" and "n \<le> r"
  shows "p \<le> r"
proof -
  obtain j where j: "4 \<le> j" "j \<le> 63" "str_round_up n = Some (2 ^ j)" "j = 4 \<or> 2 ^ (j - 1) < n"
    using str_round_up_Some[OF assms(1)] by blast
  obtain i where i: "i < 64" "r = 2 ^ i" using assms(3) by (auto simp: is_pow2_def)
  have p: "p = 2 ^ j" using j(3) assms(2) by simp
  have "(2::size_t) ^ 4 \<le> 2 ^ i" using assms(4) i by (simp add: sizeof_size_t_def)
  then have i4: "4 \<le> i" using i(1) pow2_less_iff[of i 4] by (cases "4 \<le> i") auto
  have "j \<le> i"
  proof (cases "j = 4")
    case True
    then show ?thesis using i4 by simp
  next
    case False
    then have "(2::size_t) ^ (j - 1) < 2 ^ i" using j(4) assms(5) i(2) by auto
    then have "j - 1 < i" using pow2_less_iff[of "j - 1" i] i(1) j(2) by simp
    then show ?thesis by simp
  qed
  then show ?thesis unfolding p i(2) using i(1) by (rule pow2_le)
qed

text \<open>Above \<open>2 ^ 63\<close> the doubling wraps around to 0 and the loop never ends.\<close>

lemma str_round_up_loop_zero_aux:
  "str_round_up_loop p2 n = Some y \<Longrightarrow> \<not> (p2 = 0 \<and> 0 < n)"
  by (rule str_round_up_loop.raw_induct[where P = "\<lambda>p2 n y. \<not> (p2 = 0 \<and> 0 < n)"])
     (auto split: if_splits)

lemma str_round_up_loop_zero: "0 < n \<Longrightarrow> str_round_up_loop 0 n = None"
  using str_round_up_loop_zero_aux[of 0 n] by (cases "str_round_up_loop 0 n") auto

lemma str_round_up_loop_None:
  "k \<le> 63 \<Longrightarrow> 2 ^ 63 < n \<Longrightarrow> str_round_up_loop (2 ^ k) n = None"
proof (induction "63 - k" arbitrary: k)
  case 0
  then have k: "k = 63" by simp
  have e: "(2::size_t) ^ 63 * 2 = 0" by simp
  have "0 < n" using 0 by (simp add: word_greater_zero_iff) auto
  then have "str_round_up_loop ((2::size_t) ^ 63 * 2) n = None" unfolding e
    by (rule str_round_up_loop_zero)
  then show ?case using 0 unfolding k by (subst str_round_up_loop.simps) (simp only: if_True)
next
  case (Suc d)
  then have k: "k < 63" by simp
  have "(2::size_t) ^ k \<le> 2 ^ 63" using k by (intro pow2_le) auto
  then have "(2::size_t) ^ k < n" using Suc.prems by simp
  moreover have "str_round_up_loop (2 ^ Suc k) n = None" using Suc k by (intro Suc.hyps) auto
  ultimately show ?case by (subst str_round_up_loop.simps) (simp add: mult.commute)
qed

lemma str_round_up_None: "2 ^ 63 < n \<Longrightarrow> str_round_up n = None"
proof -
  assume n: "2 ^ 63 < n"
  have "(2::size_t) * sizeof_size_t = 2 ^ 4" by (simp add: sizeof_size_t_def)
  then show ?thesis using str_round_up_loop_None[of 4 n] n by (simp add: str_round_up_def)
qed

subsection \<open>Facts about the buffer operations\<close>

lemma unat_2_63: "unat ((2::size_t) ^ 63) = 2 ^ 63"
  by (rule unat_pow2) simp

lemma unat_succ: "unat (n::size_t) < 2 ^ 63 \<Longrightarrow> unat (n + 1) = unat n + 1"
  by (subst unat_add_lem[THEN iffD1]) auto

lemma succ_le_2_63: "unat (n::size_t) < 2 ^ 63 \<Longrightarrow> n + 1 \<le> 2 ^ 63"
  by (simp add: word_le_nat_alt unat_succ unat_2_63)

lemma str_round_up_succ:
  assumes "unat (n::size_t) < 2 ^ 63"
  obtains p where "str_round_up (n + 1) = Some p" "unat n < unat p" "unat p \<le> 2 ^ 63"
proof -
  obtain j where j: "j \<le> 63" "str_round_up (n + 1) = Some (2 ^ j)" "n + 1 \<le> 2 ^ j"
    using str_round_up_Some[OF succ_le_2_63[OF assms]] by blast
  have "unat n + 1 \<le> unat ((2::size_t) ^ j)"
    using j(3) unat_succ[OF assms] by (simp add: word_le_nat_alt)
  moreover have "unat ((2::size_t) ^ j) \<le> 2 ^ 63"
    using pow2_le[of j 63] j(1) by (simp add: word_le_nat_alt unat_2_63)
  ultimately show ?thesis using j(2) that by auto
qed

lemma str_round_up_SomeD: "str_round_up n = Some p \<Longrightarrow> n \<le> 2 ^ 63"
  using str_round_up_None[of n] by (cases "n \<le> 2 ^ 63") (auto simp: not_le)

lemma str_resize_eq:
  assumes m: "buf s = Some m" "length m = unat (alloc s)"
    and p: "str_round_up (n + 1) = Some p" "unat n < unat p"
  shows "str_resize junk s n = Some (s\<lparr>len := n, alloc := max (alloc s) p,
      buf := Some ((m @ map junk [length m..<unat (max (alloc s) p)])[unat n := CHR 0x00])\<rparr>)"
proof (cases "alloc s < p")
  case True
  then have mx: "max (alloc s) p = p" by (intro max_absorb2) simp
  have "length m < unat p" using True m(2) by (simp add: word_less_nat_alt)
  then show ?thesis using True m p
    by (simp add: str_resize_def realloc_def poke_def mx Let_def)
next
  case False
  then have mx: "max (alloc s) p = alloc s" by (intro max_absorb1) (simp add: not_less)
  have "unat p \<le> length m" using False m(2) by (simp add: word_le_nat_alt not_less)
  then show ?thesis using False m p
    by (simp add: str_resize_def poke_def mx Let_def)
qed


lemma str_validE:
  assumes "str_valid s"
  obtains m p where "buf s = Some m" "length m = unat (alloc s)"
    "str_round_up (len s + 1) = Some p" "p \<le> alloc s"
    "unat (len s) < length m" "m ! unat (len s) = CHR 0x00"
    "CHR 0x00 \<notin> set (take (unat (len s)) m)" "unat (len s) < 2 ^ 63"
    "content s = take (unat (len s)) m"
proof -
  from assms obtain m p where *: "buf s = Some m" "length m = unat (alloc s)"
    "str_round_up (len s + 1) = Some p" "p \<le> alloc s"
    "unat (len s) < length m" "m ! unat (len s) = CHR 0x00"
    "CHR 0x00 \<notin> set (take (unat (len s)) m)"
    by (auto simp: str_valid_def str_ok_def owns_alloc_def split: option.splits)
  have lt: "len s < alloc s" using *(2,5) by (simp add: word_less_nat_alt)
  then have "len s \<noteq> - 1" by (metis word_order.extremum_strict)
  then have suc: "unat (len s + 1) = unat (len s) + 1"
    by (metis add.commute unatSuc add_eq_0_iff Suc_eq_plus1)
  have "len s + 1 \<le> 2 ^ 63" using *(3) by (rule str_round_up_SomeD)
  then have "unat (len s) < 2 ^ 63" using suc by (simp add: word_le_nat_alt unat_2_63)
  moreover have "content s = take (unat (len s)) m" using *(1) by (simp add: content_def)
  ultimately show ?thesis using * that by blast
qed

lemma str_validI:
  assumes "buf s = Some m" "length m = unat (alloc s)"
    "str_round_up (len s + 1) = Some p" "p \<le> alloc s"
    "unat (len s) < length m" "m ! unat (len s) = CHR 0x00"
    "CHR 0x00 \<notin> set (take (unat (len s)) m)"
  shows "str_valid s"
  using assms by (simp add: str_valid_def str_ok_def owns_alloc_def)

lemma str_resize_spec:
  assumes "owns_alloc s" "unat n < 2 ^ 63"
  obtains s' m j p where "str_resize junk s n = Some s'" "len s' = n" "buf s = Some m"
    "buf s' = Some ((m @ j)[unat n := CHR 0x00])" "length (m @ j) = unat (alloc s')"
    "str_round_up (n + 1) = Some p" "p \<le> alloc s'" "unat n < length (m @ j)"
proof -
  from assms(1) obtain m where m: "buf s = Some m" "length m = unat (alloc s)"
    by (auto simp: owns_alloc_def split: option.splits)
  obtain p where p: "str_round_up (n + 1) = Some p" "unat n < unat p"
    using str_round_up_succ[OF assms(2)] by blast
  let ?a = "max (alloc s) p"
  let ?j = "map junk [length m..<unat ?a]"
  have le: "length m \<le> unat ?a" using m(2) by (simp add: word_le_nat_alt[symmetric])
  then have l: "length (m @ ?j) = unat ?a" by simp
  have "unat p \<le> unat ?a" by (simp add: word_le_nat_alt[symmetric])
  then have "unat n < length (m @ ?j)" using p(2) l by linarith
  then show ?thesis
    using that[of "s\<lparr>len := n, alloc := ?a, buf := Some ((m @ ?j)[unat n := CHR 0x00])\<rparr>" m ?j p]
      str_resize_eq[OF m p, of junk] m p l by simp
qed

lemma unat_plus_fit: "unat (a::size_t) + unat b < 2 ^ 63 \<Longrightarrow> unat (a + b) = unat a + unat b"
  by (subst unat_add_lem[THEN iffD1]) auto

lemma memcpy_Some:
  assumes "off + n \<le> length dst" "n \<le> length src"
  obtains r where "memcpy dst off src n = Some r" "length r = length dst"
    "take off r = take off dst" "take (off + n) r = take off dst @ take n src"
    "\<And>i. off + n \<le> i \<Longrightarrow> r ! i = dst ! i"
proof -
  let ?r = "take off dst @ take n src @ drop (off + n) dst"
  have l1: "length (take off dst) = off" using assms by simp
  have l2: "length (take n src) = n" using assms by simp
  have a: "memcpy dst off src n = Some ?r" using assms by (simp add: memcpy_def)
  have b: "length ?r = length dst" using assms by simp
  have c: "take off ?r = take off dst" using l1 by simp
  have d: "take (off + n) ?r = take off dst @ take n src" using l1 l2 by simp
  have e: "?r ! i = dst ! i" if "off + n \<le> i" for i
  proof -
    have "?r = (take off dst @ take n src) @ drop (off + n) dst" by simp
    moreover have "length (take off dst @ take n src) = off + n" using l1 l2 by simp
    ultimately have "?r ! i = drop (off + n) dst ! (i - (off + n))"
      using that by (metis nth_append not_less)
    also have "\<dots> = dst ! i" using that assms by simp
    finally show ?thesis .
  qed
  show ?thesis using that[OF a b c d e] by blast
qed

text \<open>A source outside the storage of the destination is read as it was at the call.\<close>

lemma load_Object [simp]: "load dest (Object bytes) = Some bytes"
  by (simp add: load_def)

lemma strlen_at_Object [simp]: "strlen_at dest (Object bytes) = strlen bytes"
  by (simp add: strlen_at_def)

lemma memcpy_to_Object:
  "memcpy_to dest off (Object bytes) n = do {
     m \<leftarrow> buf dest;
     m \<leftarrow> memcpy m off bytes n;
     Some (dest\<lparr>buf := Some m\<rparr>)
   }"
  by (simp add: memcpy_to_def overlaps_def)

lemma do_str_cat_Object:
  "do_str_cat junk dest (Object src) n = do {
     let oldLen = len dest;
     dest \<leftarrow> str_resize junk dest (oldLen + n);
     m \<leftarrow> buf dest;
     m \<leftarrow> memcpy m (unat oldLen) src (unat n);
     Some (dest\<lparr>buf := Some m\<rparr>)
   }"
  by (simp add: do_str_cat_def memcpy_to_Object)

lemma do_str_cpy_Object:
  "do_str_cpy junk dest (Object src) n = do {
     dest \<leftarrow> str_resize junk dest n;
     m \<leftarrow> buf dest;
     m \<leftarrow> memcpy m 0 src (unat (len dest + 1));
     Some (dest\<lparr>buf := Some m\<rparr>)
   }"
  by (simp add: do_str_cpy_def memcpy_to_Object)

lemma do_str_cat_spec:
  assumes v: "str_valid dest" and n: "unat n \<le> length src"
    and fit: "unat (len dest) + unat n < 2 ^ 63"
    and nz: "CHR 0x00 \<notin> set (take (unat n) src)"
  shows "\<exists>d. do_str_cat junk dest (Object src) n = Some d \<and> str_valid d
    \<and> content d = content dest @ take (unat n) src \<and> len d = len dest + n"
proof -
  from v obtain m where m: "buf dest = Some m" "length m = unat (alloc dest)"
    "unat (len dest) < length m" "CHR 0x00 \<notin> set (take (unat (len dest)) m)"
    "content dest = take (unat (len dest)) m"
    by (rule str_validE)
  define L where "L = unat (len dest)"
  define N where "N = unat n"
  have sum: "unat (len dest + n) = L + N" unfolding L_def N_def using fit by (rule unat_plus_fit)
  have oa: "owns_alloc dest" using v by (simp add: str_valid_def)
  have fit': "unat (len dest + n) < 2 ^ 63" using sum fit by (simp add: L_def N_def)
  obtain s' m0 j p where r: "str_resize junk dest (len dest + n) = Some s'" "len s' = len dest + n"
    "buf dest = Some m0" "buf s' = Some ((m0 @ j)[unat (len dest + n) := CHR 0x00])"
    "length (m0 @ j) = unat (alloc s')" "str_round_up (len dest + n + 1) = Some p" "p \<le> alloc s'"
    "unat (len dest + n) < length (m0 @ j)"
    using str_resize_spec[OF oa fit', of junk] by blast
  have m0: "m0 = m" using r(3) m(1) by simp
  define m1 where "m1 = (m @ j)[L + N := CHR 0x00]"
  have b1: "buf s' = Some m1" using r(4) m0 sum by (simp add: m1_def)
  have lt: "L + N < length m1" using r(8) m0 sum by (simp add: m1_def)
  have l1: "length m1 = unat (alloc s')" using r(5) m0 by (simp add: m1_def)
  have z1: "m1 ! (L + N) = CHR 0x00" using lt by (simp add: m1_def)
  have Lm: "L < length m" using m(3) by (simp add: L_def)
  have tk: "take L m1 = take L m" using Lm by (simp add: m1_def)
  have Nsrc: "N \<le> length src" using n by (simp add: N_def)
  obtain m2 where m2: "memcpy m1 L src N = Some m2" "length m2 = length m1"
    "take (L + N) m2 = take L m1 @ take N src" "\<And>i. L + N \<le> i \<Longrightarrow> m2 ! i = m1 ! i"
    using memcpy_Some[of L N m1 src] lt Nsrc by (metis less_imp_le)
  define d where "d = s'\<lparr>buf := Some m2\<rparr>"
  have cat: "do_str_cat junk dest (Object src) n = Some d"
    using r(1) b1 m2(1) by (simp add: do_str_cat_Object Let_def d_def L_def N_def)
  have ld: "unat (len d) = L + N" using r(2) sum by (simp add: d_def)
  have "str_valid d"
  proof (rule str_validI[where m = m2 and p = p])
    show "buf d = Some m2" by (simp add: d_def)
    show "length m2 = unat (alloc d)" using m2(2) l1 by (simp add: d_def)
    show "str_round_up (len d + 1) = Some p" using r(2,6) by (simp add: d_def)
    show "p \<le> alloc d" using r(7) by (simp add: d_def)
    show "unat (len d) < length m2" using ld lt m2(2) by simp
    show "m2 ! unat (len d) = CHR 0x00" using ld m2(4)[of "L + N"] z1 by simp
    show "CHR 0x00 \<notin> set (take (unat (len d)) m2)"
      using ld m2(3) tk m(4) nz by (simp add: L_def N_def)
  qed
  moreover have "content d = content dest @ take (unat n) src"
    using ld m2(3) tk m(5) by (simp add: content_def d_def L_def N_def)
  moreover have "len d = len dest + n" using r(2) by (simp add: d_def)
  ultimately show ?thesis using cat by blast
qed

lemma do_str_cpy_spec:
  assumes oa: "owns_alloc dest" and fit: "unat n < 2 ^ 63" and n: "unat n < length src"
  shows "\<exists>d m p. do_str_cpy junk dest (Object src) n = Some d \<and> len d = n \<and> buf d = Some m
    \<and> length m = unat (alloc d) \<and> str_round_up (n + 1) = Some p \<and> p \<le> alloc d
    \<and> unat n < length m \<and> take (unat n + 1) m = take (unat n + 1) src"
proof -
  obtain s' m j p where r: "str_resize junk dest n = Some s'" "len s' = n" "buf dest = Some m"
    "buf s' = Some ((m @ j)[unat n := CHR 0x00])"
    "length (m @ j) = unat (alloc s')" "str_round_up (n + 1) = Some p" "p \<le> alloc s'"
    "unat n < length (m @ j)"
    using str_resize_spec[OF oa fit, of junk] by blast
  define N where "N = unat n"
  define m1 where "m1 = (m @ j)[N := CHR 0x00]"
  have suc: "unat (n + 1) = N + 1" unfolding N_def using fit by (rule unat_succ)
  have b1: "buf s' = Some m1" using r(4) by (simp add: m1_def N_def)
  have lt: "N + 1 \<le> length m1" using r(8) by (simp add: m1_def N_def)
  have l1: "length m1 = unat (alloc s')" using r(5) by (simp add: m1_def)
  have Nsrc: "N + 1 \<le> length src" using n by (simp add: N_def)
  obtain m2 where m2: "memcpy m1 0 src (N + 1) = Some m2" "length m2 = length m1"
    "take (0 + (N + 1)) m2 = take 0 m1 @ take (N + 1) src"
    using memcpy_Some[of 0 "N + 1" m1 src] lt Nsrc by (metis add_0)
  define d where "d = s'\<lparr>buf := Some m2\<rparr>"
  have "do_str_cpy junk dest (Object src) n = Some d"
    using r(1,2) b1 m2(1) suc by (simp add: do_str_cpy_Object d_def)
  moreover have "len d = n" using r(2) by (simp add: d_def)
  moreover have "buf d = Some m2" by (simp add: d_def)
  moreover have "length m2 = unat (alloc d)" using m2(2) l1 by (simp add: d_def)
  moreover have "p \<le> alloc d" using r(7) by (simp add: d_def)
  moreover have "unat n < length m2" using m2(2) lt by (simp add: N_def)
  moreover have "take (unat n + 1) m2 = take (unat n + 1) src" using m2(3) by (simp add: N_def)
  ultimately show ?thesis using r(6) by blast
qed

lemma c_str_no_nul: "CHR 0x00 \<notin> set (c_str m)"
  by (auto simp: c_str_def dest: set_takeWhileD)

lemma c_str_append_nul: "CHR 0x00 \<notin> set c \<Longrightarrow> c_str (c @ CHR 0x00 # r) = c"
  by (induction c) (auto simp: c_str_def)

lemma c_str_literal: "CHR 0x00 \<notin> set s \<Longrightarrow> c_str (literal s) = s"
  by (simp add: literal_def c_str_append_nul)

lemma nul_in_literal: "CHR 0x00 \<in> set (literal s)"
  by (simp add: literal_def)

lemma c_str_length_less: "CHR 0x00 \<in> set m \<Longrightarrow> length (c_str m) < length m"
  by (induction m) (auto simp: c_str_def)

lemma unat_of_nat_fit:
  assumes "k < 2 ^ 63"
  shows "unat (of_nat k :: size_t) = k"
proof -
  have "(2::nat) ^ 63 \<le> 2 ^ LENGTH(64)" by (rule power_increasing) auto
  then have "k < 2 ^ LENGTH(64)" using assms by (rule less_le_trans[rotated])
  then show ?thesis by (rule of_nat_inverse[OF refl])
qed

lemma strlen_Some:
  assumes "CHR 0x00 \<in> set m" "length (c_str m) < 2 ^ 63"
  obtains n where "strlen m = Some n" "unat n = length (c_str m)" "unat n < length m"
    "m ! unat n = CHR 0x00" "take (unat n) m = c_str m"
proof -
  define k where "k = length (c_str m)"
  define n :: size_t where "n = of_nat k"
  have k: "unat n = k" unfolding n_def using assms(2) unfolding k_def by (rule unat_of_nat_fit)
  have lt: "k < length m" unfolding k_def using assms(1) by (rule c_str_length_less)
  have "\<not> (m ! k \<noteq> CHR 0x00)"
    using lt unfolding k_def c_str_def by (intro nth_length_takeWhile)
  then have z: "m ! k = CHR 0x00" by blast
  have tk: "take k m = c_str m" unfolding k_def c_str_def by (rule takeWhile_eq_take[symmetric])
  have sl: "strlen m = Some n" using assms(1) unfolding strlen_def n_def k_def c_str_def by (rule if_P)
  show ?thesis
  proof (rule that[OF sl])
    show "unat n = length (c_str m)" using k k_def by blast
    show "unat n < length m" using k lt by metis
    show "m ! unat n = CHR 0x00" using k z by metis
    show "take (unat n) m = c_str m" using k tk by metis
  qed
qed

lemma take_Suc_nul:
  assumes "k < length m" "take (k + 1) m = take (k + 1) src" "k < length src"
  shows "take k m = take k src" "m ! k = src ! k"
proof -
  have "take k (take (k + 1) m) = take k (take (k + 1) src)" using assms(2) by simp
  then show "take k m = take k src" by (simp add: min_def)
  have "take (k + 1) m ! k = take (k + 1) src ! k" using assms(2) by simp
  then show "m ! k = src ! k" by simp
qed

lemma str_cpy_spec:
  assumes v: "str_valid dest" and t: "CHR 0x00 \<in> set src" and fit: "length (c_str src) < 2 ^ 63"
  shows "\<exists>d. str_cpy junk dest (Object src) = Some d \<and> str_valid d \<and> content d = c_str src"
proof -
  obtain n where n: "strlen src = Some n" "unat n = length (c_str src)" "unat n < length src"
    "src ! unat n = CHR 0x00" "take (unat n) src = c_str src"
    using strlen_Some[OF t fit] by blast
  have oa: "owns_alloc dest" using v by (simp add: str_valid_def)
  have fit': "unat n < 2 ^ 63" using n(2) fit by simp
  obtain d m p where d: "do_str_cpy junk dest (Object src) n = Some d" "len d = n" "buf d = Some m"
    "length m = unat (alloc d)" "str_round_up (n + 1) = Some p" "p \<le> alloc d"
    "unat n < length m" "take (unat n + 1) m = take (unat n + 1) src"
    using do_str_cpy_spec[OF oa fit' n(3), of junk] by blast
  have tk: "take (unat n) m = take (unat n) src" "m ! unat n = src ! unat n"
    using take_Suc_nul[OF d(7,8) n(3)] by auto
  have "str_valid d"
    using d tk n c_str_no_nul[of src] by (intro str_validI[where m = m and p = p]) auto
  moreover have "content d = c_str src" using d(2,3) tk(1) n(5) by (simp add: content_def)
  ultimately show ?thesis using d(1) n(1) by (simp add: str_cpy_def)
qed

lemma str_cpy_s_spec:
  assumes v: "str_valid dest" and vs: "str_valid src"
  shows "\<exists>d. str_cpy_s junk dest (Other src) = Some d \<and> str_valid d \<and> content d = content src"
proof -
  from vs obtain ms where ms: "buf src = Some ms" "unat (len src) < length ms"
    "ms ! unat (len src) = CHR 0x00" "CHR 0x00 \<notin> set (take (unat (len src)) ms)"
    "unat (len src) < 2 ^ 63" "content src = take (unat (len src)) ms"
    by (rule str_validE)
  have oa: "owns_alloc dest" using v by (simp add: str_valid_def)
  obtain d m p where d: "do_str_cpy junk dest (Object ms) (len src) = Some d" "len d = len src" "buf d = Some m"
    "length m = unat (alloc d)" "str_round_up (len src + 1) = Some p" "p \<le> alloc d"
    "unat (len src) < length m" "take (unat (len src) + 1) m = take (unat (len src) + 1) ms"
    using do_str_cpy_spec[OF oa ms(5) ms(2), of junk] by blast
  have tk: "take (unat (len src)) m = take (unat (len src)) ms" "m ! unat (len src) = ms ! unat (len src)"
    using take_Suc_nul[OF d(7,8) ms(2)] by auto
  have "str_valid d"
    using d tk ms by (intro str_validI[where m = m and p = p]) auto
  moreover have "content d = content src" using d(2,3) tk(1) ms(6) by (simp add: content_def)
  ultimately show ?thesis using d(1) ms(1) by (simp add: str_cpy_s_def)
qed

lemma min_size_t:
  fixes l n :: size_t
  shows "unat (if l < n then l else n) = min (unat n) (unat l)"
  by (auto simp: word_less_nat_alt min_def)

lemma take_c_str: "take a (c_str m) = take (min a (length (c_str m))) m"
proof -
  have "take a (take (length (c_str m)) m) = take (min a (length (c_str m))) m"
    by (simp only: take_take)
  moreover have "take (length (c_str m)) m = c_str m"
    unfolding c_str_def by (rule takeWhile_eq_take[symmetric])
  ultimately show ?thesis by simp
qed

lemma poke_Some: "i < length m \<Longrightarrow> poke m i c = Some (m[i := c])"
  by (simp add: poke_def)

lemma str_ncpy_spec:
  assumes v: "str_valid dest" and t: "CHR 0x00 \<in> set src" and fit: "length (c_str src) < 2 ^ 63"
  shows "\<exists>d. str_ncpy junk dest (Object src) n = Some d \<and> str_valid d \<and> content d = take (unat n) (c_str src)"
proof -
  obtain l where l: "strlen src = Some l" "unat l = length (c_str src)" "unat l < length src"
    "take (unat l) src = c_str src"
    using strlen_Some[OF t fit] by blast
  define n' where "n' = (if l < n then l else n)"
  define N where "N = unat n'"
  have N: "N = min (unat n) (unat l)" unfolding N_def n'_def by (rule min_size_t)
  have Nl: "N \<le> unat l" using N by simp
  have oa: "owns_alloc dest" using v by (simp add: str_valid_def)
  have fit': "unat n' < 2 ^ 63" using Nl l(2) fit by (simp add: N_def)
  have Ns: "unat n' < length src" using Nl l(3) by (simp add: N_def)
  obtain d m p where d: "do_str_cpy junk dest (Object src) n' = Some d" "len d = n'" "buf d = Some m"
    "length m = unat (alloc d)" "str_round_up (n' + 1) = Some p" "p \<le> alloc d"
    "unat n' < length m" "take (unat n' + 1) m = take (unat n' + 1) src"
    using do_str_cpy_spec[OF oa fit' Ns, of junk] by blast
  have tk: "take N m = take N src"
    using take_Suc_nul(1)[OF d(7,8) Ns] by (simp add: N_def)
  have tk2: "take N src = take (unat n) (c_str src)"
    using l(2) N by (simp add: take_c_str)
  define m' where "m' = m[N := CHR 0x00]"
  define d' where "d' = d\<lparr>buf := Some m'\<rparr>"
  have Nm: "N < length m" using d(7) by (simp add: N_def)
  have pk: "poke m N (CHR 0x00) = Some m'" unfolding m'_def using Nm by (rule poke_Some)
  have run: "str_ncpy junk dest (Object src) n = Some d'"
    using l(1) d(1,3) pk by (simp add: str_ncpy_def Let_def n'_def[symmetric] N_def[symmetric] d'_def)
  have tk3: "take N m' = take N m" by (simp add: m'_def)
  have ld: "unat (len d') = N" using d(2) by (simp add: d'_def N_def)
  have "CHR 0x00 \<notin> set (take (unat n) (c_str src))"
    using c_str_no_nul[of src] by (auto dest: in_set_takeD)
  then have nz: "CHR 0x00 \<notin> set (take N m')" using tk tk2 tk3 by simp
  have "str_valid d'"
  proof (rule str_validI[where m = m' and p = p])
    show "buf d' = Some m'" by (simp add: d'_def)
    show "length m' = unat (alloc d')" using d(4) by (simp add: d'_def m'_def)
    show "str_round_up (len d' + 1) = Some p" using d(2,5) by (simp add: d'_def)
    show "p \<le> alloc d'" using d(6) by (simp add: d'_def)
    show "unat (len d') < length m'" using ld Nm by (simp add: m'_def)
    show "m' ! unat (len d') = CHR 0x00" using ld Nm by (simp add: m'_def)
    show "CHR 0x00 \<notin> set (take (unat (len d')) m')" using ld nz by simp
  qed
  moreover have "content d' = take (unat n) (c_str src)"
    using ld tk tk2 tk3 by (simp add: content_def d'_def)
  ultimately show ?thesis using run by blast
qed

lemma str_ncat_spec:
  assumes v: "str_valid dest" and t: "CHR 0x00 \<in> set src"
    and fit: "length (content dest) + length (c_str src) < 2 ^ 63"
  shows "\<exists>d. str_ncat junk dest (Object src) n = Some d \<and> str_valid d
    \<and> content d = content dest @ take (unat n) (c_str src)"
proof -
  from v obtain m where m: "unat (len dest) < length m" "content dest = take (unat (len dest)) m"
    by (rule str_validE)
  have lc: "length (content dest) = unat (len dest)" using m by simp
  have fit0: "length (c_str src) < 2 ^ 63" using fit by simp
  obtain l where l: "strlen src = Some l" "unat l = length (c_str src)" "unat l < length src"
    "take (unat l) src = c_str src"
    using strlen_Some[OF t fit0] by blast
  define n' where "n' = (if l < n then l else n)"
  define N where "N = unat n'"
  have N: "N = min (unat n) (unat l)" unfolding N_def n'_def by (rule min_size_t)
  have Nl: "N \<le> unat l" using N by simp
  have tk2: "take N src = take (unat n) (c_str src)"
    using l(2) N by (simp add: take_c_str)
  have a: "unat n' \<le> length src" using Nl l(3) by (simp add: N_def)
  have b: "unat (len dest) + unat n' < 2 ^ 63" using Nl l(2) fit lc by (simp add: N_def)
  have "CHR 0x00 \<notin> set (take (unat n) (c_str src))"
    using c_str_no_nul[of src] by (auto dest: in_set_takeD)
  then have c: "CHR 0x00 \<notin> set (take (unat n') src)" using tk2 by (simp add: N_def)
  obtain d where d: "do_str_cat junk dest (Object src) n' = Some d" "str_valid d"
    "content d = content dest @ take (unat n') src"
    using do_str_cat_spec[OF v a b c, of junk] by blast
  have "str_ncat junk dest (Object src) n = Some d"
    using l(1) d(1) by (simp add: str_ncat_def Let_def n'_def[symmetric])
  then show ?thesis using d(2,3) tk2 by (simp add: N_def)
qed

lemma content_length: "str_valid s \<Longrightarrow> length (content s) = unat (len s)"
  by (erule str_validE) simp

lemma do_str_cat_cstr:
  assumes v: "str_valid dest" and t: "CHR 0x00 \<in> set src"
    and fit: "length (content dest) + length (c_str src) < 2 ^ 63"
  shows "\<exists>n d. strlen src = Some n \<and> do_str_cat junk dest (Object src) n = Some d \<and> str_valid d
    \<and> content d = content dest @ c_str src"
proof -
  have fit0: "length (c_str src) < 2 ^ 63" using fit by simp
  obtain l where l: "strlen src = Some l" "unat l = length (c_str src)" "unat l < length src"
    "take (unat l) src = c_str src"
    using strlen_Some[OF t fit0] by blast
  have a: "unat l \<le> length src" using l(3) by simp
  have b: "unat (len dest) + unat l < 2 ^ 63" using fit l(2) content_length[OF v] by simp
  have c: "CHR 0x00 \<notin> set (take (unat l) src)" using l(4) c_str_no_nul[of src] by simp
  show ?thesis using do_str_cat_spec[OF v a b c, of junk] l(1,4) by auto
qed

lemma do_str_cat_buf:
  assumes v: "str_valid dest" and vs: "str_valid src"
    and fit: "length (content dest) + length (content src) < 2 ^ 63"
  shows "\<exists>m d. buf src = Some m \<and> do_str_cat junk dest (Object m) (len src) = Some d \<and> str_valid d
    \<and> content d = content dest @ content src"
proof -
  from vs obtain ms where ms: "buf src = Some ms" "unat (len src) < length ms"
    "CHR 0x00 \<notin> set (take (unat (len src)) ms)" "content src = take (unat (len src)) ms"
    by (rule str_validE)
  have a: "unat (len src) \<le> length ms" using ms(2) by simp
  have b: "unat (len dest) + unat (len src) < 2 ^ 63"
    using fit content_length[OF v] content_length[OF vs] by simp
  show ?thesis using do_str_cat_spec[OF v a b ms(3), of junk] ms(1,4) by auto
qed

lemma str_cat_va_spec:
  assumes "str_valid dest" "\<forall>s \<in> set srcs. CHR 0x00 \<in> set s"
    and "length (content dest) + sum_list (map (\<lambda>s. length (c_str s)) srcs) < 2 ^ 63"
  shows "\<exists>d. str_cat_va junk dest (map (\<lambda>s. Some (Object s)) srcs @ None # rest) = Some d \<and> str_valid d
    \<and> content d = content dest @ concat (map c_str srcs)"
  using assms
proof (induction srcs arbitrary: dest)
  case Nil
  then show ?case by simp
next
  case (Cons src srcs)
  have t: "CHR 0x00 \<in> set src" using Cons.prems(2) by simp
  have fit: "length (content dest) + length (c_str src) < 2 ^ 63" using Cons.prems(3) by simp
  obtain n d1 where d1: "strlen src = Some n" "do_str_cat junk dest (Object src) n = Some d1" "str_valid d1"
    "content d1 = content dest @ c_str src"
    using do_str_cat_cstr[OF Cons.prems(1) t fit, of junk] by blast
  have fit1: "length (content d1) + sum_list (map (\<lambda>s. length (c_str s)) srcs) < 2 ^ 63"
    using Cons.prems(3) d1(4) by simp
  have "\<forall>s \<in> set srcs. CHR 0x00 \<in> set s" using Cons.prems(2) by simp
  from Cons.IH[OF d1(3) this fit1] obtain d where
    d: "str_cat_va junk d1 (map (\<lambda>s. Some (Object s)) srcs @ None # rest) = Some d" "str_valid d"
    "content d = content d1 @ concat (map c_str srcs)" by blast
  show ?case using d1(1,2,4) d by simp
qed

lemma str_cat_s_va_spec:
  assumes "str_valid dest" "\<forall>s \<in> set srcs. str_valid s"
    and "length (content dest) + sum_list (map (\<lambda>s. length (content s)) srcs) < 2 ^ 63"
  shows "\<exists>d. str_cat_s_va junk dest (map (\<lambda>s. Some (Other s)) srcs @ None # rest) = Some d \<and> str_valid d
    \<and> content d = content dest @ concat (map content srcs)"
  using assms
proof (induction srcs arbitrary: dest)
  case Nil
  then show ?case by simp
next
  case (Cons src srcs)
  have t: "str_valid src" using Cons.prems(2) by simp
  have fit: "length (content dest) + length (content src) < 2 ^ 63" using Cons.prems(3) by simp
  obtain m d1 where d1: "buf src = Some m" "do_str_cat junk dest (Object m) (len src) = Some d1" "str_valid d1"
    "content d1 = content dest @ content src"
    using do_str_cat_buf[OF Cons.prems(1) t fit, of junk] by blast
  have fit1: "length (content d1) + sum_list (map (\<lambda>s. length (content s)) srcs) < 2 ^ 63"
    using Cons.prems(3) d1(4) by simp
  have "\<forall>s \<in> set srcs. str_valid s" using Cons.prems(2) by simp
  from Cons.IH[OF d1(3) this fit1] obtain d where
    d: "str_cat_s_va junk d1 (map (\<lambda>s. Some (Other s)) srcs @ None # rest) = Some d" "str_valid d"
    "content d = content d1 @ concat (map content srcs)" by blast
  show ?case using d1(1,2,4) d by simp
qed

lemma putc_step:
  assumes v: "str_valid dest" and ch: "ch \<noteq> CHR 0x00"
    and fit: "length (content dest) + 1 < 2 ^ 63"
  shows "\<exists>d1 m1 m'. str_resize junk dest (len dest + 1) = Some d1 \<and> buf d1 = Some m1
    \<and> poke m1 (unat (len d1 - 1)) ch = Some m' \<and> str_valid (d1\<lparr>buf := Some m'\<rparr>)
    \<and> content (d1\<lparr>buf := Some m'\<rparr>) = content dest @ [ch]"
proof -
  from v obtain m where m: "buf dest = Some m" "unat (len dest) < length m"
    "CHR 0x00 \<notin> set (take (unat (len dest)) m)" "content dest = take (unat (len dest)) m"
    by (rule str_validE)
  define L where "L = unat (len dest)"
  have L: "L + 1 < 2 ^ 63" using fit content_length[OF v] by (simp add: L_def)
  have L0: "unat (len dest) < 2 ^ 63" using L by (simp add: L_def)
  have suc: "unat (len dest + 1) = L + 1" unfolding L_def using L0 by (rule unat_succ)
  have fit': "unat (len dest + 1) < 2 ^ 63" using suc L by simp
  have oa: "owns_alloc dest" using v by (simp add: str_valid_def)
  obtain s' m0 j p where r: "str_resize junk dest (len dest + 1) = Some s'" "len s' = len dest + 1"
    "buf dest = Some m0" "buf s' = Some ((m0 @ j)[unat (len dest + 1) := CHR 0x00])"
    "length (m0 @ j) = unat (alloc s')" "str_round_up (len dest + 1 + 1) = Some p" "p \<le> alloc s'"
    "unat (len dest + 1) < length (m0 @ j)"
    using str_resize_spec[OF oa fit', of junk] by blast
  have m0: "m0 = m" using r(3) m(1) by simp
  define m1 where "m1 = (m @ j)[L + 1 := CHR 0x00]"
  define m' where "m' = m1[L := ch]"
  define d where "d = s'\<lparr>buf := Some m'\<rparr>"
  have b1: "buf s' = Some m1" using r(4) m0 suc by (simp add: m1_def)
  have lt: "L + 1 < length m1" using r(8) m0 suc by (simp add: m1_def)
  have l1: "length m1 = unat (alloc s')" using r(5) m0 by (simp add: m1_def)
  have idx: "unat (len s' - 1) = L" using r(2) by (simp add: L_def)
  have pk: "poke m1 (unat (len s' - 1)) ch = Some m'"
    unfolding idx m'_def using lt by (intro poke_Some) simp
  have Lm: "L < length m" using m(2) by (simp add: L_def)
  have tk1: "take L m1 = take L m" using Lm by (simp add: m1_def)
  have tk: "take (L + 1) m' = take L m @ [ch]"
    using lt tk1 by (simp add: m'_def take_Suc_conv_app_nth)
  have z: "m' ! (L + 1) = CHR 0x00" using lt by (simp add: m'_def m1_def)
  have ld: "unat (len d) = L + 1" using r(2) suc by (simp add: d_def)
  have "str_valid d"
  proof (rule str_validI[where m = m' and p = p])
    show "buf d = Some m'" by (simp add: d_def)
    show "length m' = unat (alloc d)" using l1 by (simp add: d_def m'_def)
    show "str_round_up (len d + 1) = Some p" using r(2,6) by (simp add: d_def)
    show "p \<le> alloc d" using r(7) by (simp add: d_def)
    show "unat (len d) < length m'" using ld lt by (simp add: m'_def)
    show "m' ! unat (len d) = CHR 0x00" using ld z by simp
    show "CHR 0x00 \<notin> set (take (unat (len d)) m')" using ld tk m(3) ch by (simp add: L_def)
  qed
  moreover have "content d = content dest @ [ch]"
    using ld tk m(4) by (simp add: content_def d_def L_def)
  ultimately show ?thesis using r(1) b1 pk unfolding d_def by blast
qed

lemma char_of_0: "char_of (0::int) = CHR 0x00"
  by (simp add: char_of_eq_iff)

lemma str_putc_va_spec:
  assumes "str_valid dest" "\<forall>c \<in> set cs. char_of c \<noteq> CHR 0x00"
    and "length (content dest) + length cs < 2 ^ 63"
  shows "\<exists>d. str_putc_va junk dest (cs @ 0 # rest) = Some d \<and> str_valid d
    \<and> content d = content dest @ map char_of cs"
  using assms
proof (induction cs arbitrary: dest)
  case Nil
  then show ?case by simp
next
  case (Cons c cs)
  have ch: "char_of c \<noteq> CHR 0x00" using Cons.prems(2) by simp
  then have c0: "c \<noteq> 0" using char_of_0 by metis
  have fit: "length (content dest) + 1 < 2 ^ 63" using Cons.prems(3) by simp
  obtain d1 m1 m' where s: "str_resize junk dest (len dest + 1) = Some d1" "buf d1 = Some m1"
    "poke m1 (unat (len d1 - 1)) (char_of c) = Some m'" "str_valid (d1\<lparr>buf := Some m'\<rparr>)"
    "content (d1\<lparr>buf := Some m'\<rparr>) = content dest @ [char_of c]"
    using putc_step[OF Cons.prems(1) ch fit, of junk] by blast
  have fit1: "length (content (d1\<lparr>buf := Some m'\<rparr>)) + length cs < 2 ^ 63"
    using Cons.prems(3) s(5) by simp
  have "\<forall>c \<in> set cs. char_of c \<noteq> CHR 0x00" using Cons.prems(2) by simp
  from Cons.IH[OF s(4) this fit1] obtain d where
    d: "str_putc_va junk (d1\<lparr>buf := Some m'\<rparr>) (cs @ 0 # rest) = Some d" "str_valid d"
    "content d = content (d1\<lparr>buf := Some m'\<rparr>) @ map char_of cs" by blast
  show ?case using c0 s(1,2,3,5) d by simp
qed

subsection \<open>Facts about the self-copy and about \<open>append\<close>\<close>

lemma str_resize_same:
  assumes "str_valid a"
  shows "str_resize junk a (len a) = Some a"
proof -
  from assms obtain m p where m: "buf a = Some m" "length m = unat (alloc a)"
    "str_round_up (len a + 1) = Some p" "p \<le> alloc a"
    "unat (len a) < length m" "m ! unat (len a) = CHR 0x00"
    by (rule str_validE)
  have p: "unat (len a) < unat p"
    using m(2,4,5) str_round_up_succ[of "len a"] m(3) str_validE[OF assms] by (metis option.inject)
  have mx: "max (alloc a) p = alloc a" using m(4) by (rule max_absorb1)
  have id: "m[unat (len a) := CHR 0x00] = m" using m(6) by (metis list_update_id)
  have "a\<lparr>len := len a, alloc := alloc a, buf := Some m\<rparr> = a" using m(1) by simp
  then show ?thesis using str_resize_eq[OF m(1,2,3) p, of junk] mx m(2) id by simp
qed

text \<open>
  The self-copy: the source pointer is the storage of the destination, which
  \<^verbatim>\<open>str_resize\<close> leaves where it is, and \<^verbatim>\<open>memcpy\<close> copies the bytes onto themselves.
\<close>

lemma str_cpy_s_Dest:
  assumes "str_valid a"
  shows "str_cpy_s junk a Dest = Some a"
proof -
  from assms obtain m where m: "buf a = Some m" "unat (len a) < length m" "unat (len a) < 2 ^ 63"
    by (rule str_validE)
  have r: "str_resize junk a (len a) = Some a" using assms by (rule str_resize_same)
  have suc: "unat (len a + 1) = unat (len a) + 1" using m(3) by (rule unat_succ)
  have "memcpy m 0 m (unat (len a + 1)) = Some m"
    using m(2) suc by (simp add: memcpy_def)
  moreover have "a\<lparr>buf := Some m\<rparr> = a" using m(1) by simp
  ultimately have "memcpy_to a 0 (Storage (alloc a) 0) (unat (len a + 1)) = Some a"
    using m(1) by (simp add: memcpy_to_def load_def overlaps_def)
  then show ?thesis using r m(1) by (simp add: str_cpy_s_def do_str_cpy_def)
qed

lemma length_concat_map: "length (concat (map f xs)) = sum_list (map (\<lambda>x. length (f x)) xs)"
  by (induction xs) auto

lemma str_cat_spec:
  assumes "str_valid dest" "\<forall>s \<in> set srcs. CHR 0x00 \<in> set s"
    and "length (content dest) + length (concat (map c_str srcs)) < 2 ^ 63"
  shows "\<exists>d. str_cat junk dest (map Object srcs) = Some d \<and> str_valid d
    \<and> content d = content dest @ concat (map c_str srcs)"
  using str_cat_va_spec[OF assms(1,2), of junk "[]"] assms(3)
  by (simp add: str_cat_def length_concat_map comp_def)

lemma str_cat_s_spec:
  assumes "str_valid dest" "\<forall>s \<in> set srcs. str_valid s"
    and "length (content dest) + length (concat (map content srcs)) < 2 ^ 63"
  shows "\<exists>d. str_cat_s junk dest (map Other srcs) = Some d \<and> str_valid d
    \<and> content d = content dest @ concat (map content srcs)"
  using str_cat_s_va_spec[OF assms(1,2), of junk "[]"] assms(3)
  by (simp add: str_cat_s_def length_concat_map comp_def)

lemma strings_ok:
  assumes "list_all string_ok ps"
  obtains srcs where "ps = map Object srcs" "\<forall>s \<in> set srcs. CHR 0x00 \<in> set s"
    "map string_bytes ps = map c_str srcs"
proof -
  have "\<exists>srcs. ps = map Object srcs \<and> (\<forall>s \<in> set srcs. CHR 0x00 \<in> set s)
      \<and> map string_bytes ps = map c_str srcs"
    using assms
  proof (induction ps)
    case Nil
    show ?case by simp
  next
    case (Cons p ps)
    then obtain srcs where "ps = map Object srcs" "\<forall>s \<in> set srcs. CHR 0x00 \<in> set s"
      "map string_bytes ps = map c_str srcs" by auto
    moreover obtain s where "p = Object s" "CHR 0x00 \<in> set s"
      using Cons.prems by (cases p) auto
    ultimately show ?case by (intro exI[of _ "s # srcs"]) simp
  qed
  then show ?thesis using that by blast
qed

lemma buffers_ok:
  assumes "list_all buffer_ok rs"
  obtains srcs where "rs = map Other srcs" "\<forall>s \<in> set srcs. str_valid s"
    "map buffer_bytes rs = map content srcs"
proof -
  have "\<exists>srcs. rs = map Other srcs \<and> (\<forall>s \<in> set srcs. str_valid s)
      \<and> map buffer_bytes rs = map content srcs"
    using assms
  proof (induction rs)
    case Nil
    show ?case by simp
  next
    case (Cons r rs)
    then obtain srcs where "rs = map Other srcs" "\<forall>s \<in> set srcs. str_valid s"
      "map buffer_bytes rs = map content srcs" by auto
    moreover obtain s where "r = Other s" "str_valid s"
      using Cons.prems by (cases r) auto
    ultimately show ?case by (intro exI[of _ "s # srcs"]) simp
  qed
  then show ?thesis using that by blast
qed

lemma str_cat_pointers_spec:
  assumes "str_valid dest" "list_all string_ok ps"
    and "length (content dest) + length (concat (map string_bytes ps)) < 2 ^ 63"
  shows "\<exists>d. str_cat junk dest ps = Some d \<and> str_valid d
    \<and> content d = content dest @ concat (map string_bytes ps)"
proof -
  obtain srcs where s: "ps = map Object srcs" "\<forall>s \<in> set srcs. CHR 0x00 \<in> set s"
    "map string_bytes ps = map c_str srcs"
    using strings_ok[OF assms(2)] by blast
  have e: "concat (map string_bytes ps) = concat (map c_str srcs)" using s(3) by simp
  have "length (content dest) + length (concat (map c_str srcs)) < 2 ^ 63"
    using assms(3) e by simp
  from str_cat_spec[OF assms(1) s(2) this, of junk] obtain d where
    "str_cat junk dest ps = Some d" "str_valid d"
    "content d = content dest @ concat (map c_str srcs)"
    unfolding s(1) by blast
  then show ?thesis using e by simp
qed

lemma str_cat_s_refs_spec:
  assumes "str_valid dest" "list_all buffer_ok rs"
    and "length (content dest) + length (concat (map buffer_bytes rs)) < 2 ^ 63"
  shows "\<exists>d. str_cat_s junk dest rs = Some d \<and> str_valid d
    \<and> content d = content dest @ concat (map buffer_bytes rs)"
proof -
  obtain srcs where s: "rs = map Other srcs" "\<forall>s \<in> set srcs. str_valid s"
    "map buffer_bytes rs = map content srcs"
    using buffers_ok[OF assms(2)] by blast
  have e: "concat (map buffer_bytes rs) = concat (map content srcs)" using s(3) by simp
  have "length (content dest) + length (concat (map content srcs)) < 2 ^ 63"
    using assms(3) e by simp
  from str_cat_s_spec[OF assms(1) s(2) this, of junk] obtain d where
    "str_cat_s junk dest rs = Some d" "str_valid d"
    "content d = content dest @ concat (map content srcs)"
    unfolding s(1) by blast
  then show ?thesis using e by simp
qed

lemma append_call_spec:
  assumes "str_valid dest" "fragments_ok c"
    and "length (content dest) + length (fragment_bytes c) < 2 ^ 63"
  shows "\<exists>d. run_append_call junk dest c = Some d \<and> str_valid d
    \<and> content d = content dest @ fragment_bytes c"
proof (cases c)
  case (Cat srcs)
  then show ?thesis using str_cat_pointers_spec[of dest srcs junk] assms by simp
next
  case (Cat_s srcs)
  then show ?thesis using str_cat_s_refs_spec[of dest srcs junk] assms by simp
qed

lemma append_calls_spec:
  assumes "str_valid dest" "\<forall>c \<in> set calls. fragments_ok c"
    and "length (content dest) + length (concat (map fragment_bytes calls)) < 2 ^ 63"
  shows "\<exists>d. append_calls junk dest calls = Some d \<and> str_valid d
    \<and> content d = content dest @ concat (map fragment_bytes calls)"
  using assms
proof (induction calls arbitrary: dest)
  case Nil
  then show ?case by simp
next
  case (Cons c calls)
  have ok: "fragments_ok c" using Cons.prems(2) by simp
  have fit: "length (content dest) + length (fragment_bytes c) < 2 ^ 63" using Cons.prems(3) by simp
  obtain d1 where d1: "run_append_call junk dest c = Some d1" "str_valid d1"
    "content d1 = content dest @ fragment_bytes c"
    using append_call_spec[OF Cons.prems(1) ok fit, of junk] by blast
  have fit1: "length (content d1) + length (concat (map fragment_bytes calls)) < 2 ^ 63"
    using Cons.prems(3) d1(3) by simp
  have "\<forall>c \<in> set calls. fragments_ok c" using Cons.prems(2) by simp
  from Cons.IH[OF d1(2) this fit1] obtain d where
    "append_calls junk d1 calls = Some d" "str_valid d"
    "content d = content d1 @ concat (map fragment_bytes calls)" by blast
  then show ?case using d1(1,3) by simp
qed

subsection \<open>Facts about the line reader and the tokenizer\<close>

lemma putc_args_split: "\<exists>rest. cs @ [0::int] = takeWhile (\<lambda>c. c \<noteq> 0) cs @ 0 # rest"
  by (induction cs) auto

lemma str_putc_spec:
  assumes "str_valid dest" "\<forall>c \<in> set (takeWhile (\<lambda>c. c \<noteq> 0) cs). char_of c \<noteq> CHR 0x00"
    and "length (content dest) + length (takeWhile (\<lambda>c. c \<noteq> 0) cs) < 2 ^ 63"
  shows "\<exists>d. str_putc junk dest cs = Some d \<and> str_valid d
    \<and> content d = content dest @ map char_of (takeWhile (\<lambda>c. c \<noteq> 0) cs)"
proof -
  obtain rest where "cs @ [0::int] = takeWhile (\<lambda>c. c \<noteq> 0) cs @ 0 # rest"
    using putc_args_split by blast
  then show ?thesis
    using str_putc_va_spec[OF assms, of junk rest] by (simp add: str_putc_def)
qed

lemma str_putc_one:
  assumes "str_valid dest" "char_of c \<noteq> CHR 0x00" "length (content dest) + 1 < 2 ^ 63"
  shows "\<exists>d. str_putc junk dest [c] = Some d \<and> str_valid d \<and> content d = content dest @ [char_of c]"
proof -
  have c0: "c \<noteq> 0" using assms(2) char_of_0 by metis
  then have tw: "takeWhile (\<lambda>c. c \<noteq> 0) [c] = [c]" by simp
  show ?thesis using str_putc_spec[of dest "[c]" junk] assms unfolding tw by simp
qed

lemma str_putc_zero: "str_putc junk dest [0] = Some dest"
  by (simp add: str_putc_def)

lemma of_char_eq_newline: "(of_char b = (10::int)) = (b = CHR 0x0A)"
proof
  assume "of_char b = (10::int)"
  then have "char_of (of_char b :: int) = char_of (10::int)" by simp
  then show "b = CHR 0x0A" by (simp add: char_of_eq_iff)
next
  assume "b = CHR 0x0A"
  then show "of_char b = (10::int)" by simp
qed

lemma of_char_not_EOF: "of_char b \<noteq> EOF"
proof
  assume "of_char b = EOF"
  then have "(of_char b :: int) mod 256 = (- 1) mod 256" by (simp add: EOF_def)
  then have "(of_char b :: int) = 255" by (simp only: of_char_mod_256) simp
  then show False using \<open>of_char b = EOF\<close> by (simp add: EOF_def)
qed

lemma getline_loop_spec:
  assumes "str_valid out"
    and "length (content out) + length (takeWhile (\<lambda>b. b \<noteq> CHR 0x0A) inp) < 2 ^ 63"
  shows "\<exists>out'. getline_loop junk out inp
      = Some (out', if CHR 0x0A \<in> set inp then 10 else EOF, drop 1 (dropWhile (\<lambda>b. b \<noteq> CHR 0x0A) inp))
    \<and> str_valid out'
    \<and> content out' = content out @ filter (\<lambda>b. b \<noteq> CHR 0x00) (takeWhile (\<lambda>b. b \<noteq> CHR 0x0A) inp)"
  using assms
proof (induction inp arbitrary: out)
  case Nil
  then show ?case by simp
next
  case (Cons b inp)
  show ?case
  proof (cases "b = CHR 0x0A")
    case True
    then show ?thesis using Cons.prems(1) by (simp add: of_char_eq_newline)
  next
    case nl: False
    have c: "(of_char b :: int) \<noteq> 10 \<and> of_char b \<noteq> EOF"
      using nl of_char_not_EOF by (simp add: of_char_eq_newline)
    show ?thesis
    proof (cases "b = CHR 0x00")
      case True
      have fit: "length (content out) + length (takeWhile (\<lambda>b. b \<noteq> CHR 0x0A) inp) < 2 ^ 63"
        using Cons.prems(2) nl by simp
      from Cons.IH[OF Cons.prems(1) fit] obtain out' where
        "getline_loop junk out inp
          = Some (out', if CHR 0x0A \<in> set inp then 10 else EOF, drop 1 (dropWhile (\<lambda>b. b \<noteq> CHR 0x0A) inp))"
        "str_valid out'"
        "content out' = content out @ filter (\<lambda>b. b \<noteq> CHR 0x00) (takeWhile (\<lambda>b. b \<noteq> CHR 0x0A) inp)"
        by blast
      then show ?thesis using True nl c by (simp add: str_putc_zero Let_def)
    next
      case False
      have ch: "char_of (of_char b :: int) \<noteq> CHR 0x00" using False by simp
      have fit1: "length (content out) + 1 < 2 ^ 63" using Cons.prems(2) nl by simp
      obtain o1 where o1: "str_putc junk out [of_char b] = Some o1" "str_valid o1"
        "content o1 = content out @ [b]"
        using str_putc_one[OF Cons.prems(1) ch fit1, of junk] by auto
      have fit: "length (content o1) + length (takeWhile (\<lambda>b. b \<noteq> CHR 0x0A) inp) < 2 ^ 63"
        using Cons.prems(2) nl o1(3) by simp
      from Cons.IH[OF o1(2) fit] obtain out' where
        "getline_loop junk o1 inp
          = Some (out', if CHR 0x0A \<in> set inp then 10 else EOF, drop 1 (dropWhile (\<lambda>b. b \<noteq> CHR 0x0A) inp))"
        "str_valid out'"
        "content out' = content o1 @ filter (\<lambda>b. b \<noteq> CHR 0x00) (takeWhile (\<lambda>b. b \<noteq> CHR 0x0A) inp)"
        by blast
      then show ?thesis using False nl c o1(1,3) by (simp add: Let_def)
    qed
  qed
qed

lemma str_cpy_empty:
  assumes "str_valid dest"
  shows "\<exists>d. str_cpy junk dest (Object (literal '''')) = Some d \<and> str_valid d \<and> content d = []"
proof -
  have "c_str (literal '''') = []" by (simp add: c_str_literal)
  then show ?thesis
    using str_cpy_spec[OF assms nul_in_literal, of "''''" junk] by simp
qed

lemma str_getline_spec:
  assumes "str_valid out" and "length (takeWhile (\<lambda>b. b \<noteq> CHR 0x0A) inp) < 2 ^ 63"
  shows "\<exists>out'. str_getline junk out inp
      = Some (out', if CHR 0x0A \<in> set inp then len out' + 1 else len out',
              drop 1 (dropWhile (\<lambda>b. b \<noteq> CHR 0x0A) inp))
    \<and> str_valid out'
    \<and> content out' = filter (\<lambda>b. b \<noteq> CHR 0x00) (takeWhile (\<lambda>b. b \<noteq> CHR 0x0A) inp)"
proof -
  obtain o0 where o0: "str_cpy junk out (Object (literal '''')) = Some o0" "str_valid o0" "content o0 = []"
    using str_cpy_empty[OF assms(1)] by blast
  have fit: "length (content o0) + length (takeWhile (\<lambda>b. b \<noteq> CHR 0x0A) inp) < 2 ^ 63"
    using assms(2) o0(3) by simp
  obtain out' where l: "getline_loop junk o0 inp
      = Some (out', if CHR 0x0A \<in> set inp then 10 else EOF, drop 1 (dropWhile (\<lambda>b. b \<noteq> CHR 0x0A) inp))"
    "str_valid out'"
    "content out' = content o0 @ filter (\<lambda>b. b \<noteq> CHR 0x00) (takeWhile (\<lambda>b. b \<noteq> CHR 0x0A) inp)"
    using getline_loop_spec[OF o0(2) fit, of junk] by blast
  have "str_getline junk out inp
      = Some (out', if CHR 0x0A \<in> set inp then len out' + 1 else len out',
              drop 1 (dropWhile (\<lambda>b. b \<noteq> CHR 0x0A) inp))"
    using o0(1) l(1) by (simp add: str_getline_def EOF_def)
  then show ?thesis using l(2,3) o0(3) by simp
qed

lemma int_of_char_inverse: "char_of (int_of_char c) = c"
proof -
  define x :: int where "x = of_char c"
  have "char_of (x - 256) = char_of ((x - 256) mod 256)" by (simp only: char_of_mod_256)
  also have "(x - 256) mod 256 = x mod 256" by simp
  also have "char_of (x mod 256) = char_of x" by (simp only: char_of_mod_256)
  finally have "char_of (x - 256) = c" by (simp add: x_def)
  moreover have "char_of x = c" by (simp add: x_def)
  ultimately show ?thesis by (simp add: int_of_char_def x_def)
qed









lemma len_eq_content_length: "str_valid s \<Longrightarrow> len s = of_nat (length (content s))"
  using content_length[of s] by (metis of_nat_unat ucast_id)


subsection \<open>Facts about the format engine\<close>

lemma digit_not_nul: "d < 10 \<Longrightarrow> char_of (48 + (d::nat)) \<noteq> CHR 0x00"
  by (simp add: char_of_eq_iff take_bit_eq_mod)

lemma decimal_no_nul: "CHR 0x00 \<notin> set (decimal m)"
proof (induction m rule: decimal.induct)
  case (1 n)
  show ?case
  proof (cases "n < 10")
    case True
    then show ?thesis using digit_not_nul[of n] by (subst decimal.simps) simp
  next
    case False
    have "n mod 10 < 10" by simp
    then have "char_of (48 + n mod 10) \<noteq> CHR 0x00" by (rule digit_not_nul)
    then show ?thesis using False 1 by (subst decimal.simps) auto
  qed
qed

lemma decimal_length_pos: "0 < length (decimal m)"
  by (subst decimal.simps) simp

lemma decimal_length_le: "m < 10 ^ j \<Longrightarrow> 0 < j \<Longrightarrow> length (decimal m) \<le> j"
proof (induction j arbitrary: m)
  case 0
  then show ?case by simp
next
  case (Suc j)
  show ?case
  proof (cases "m < 10")
    case True
    then show ?thesis by (subst decimal.simps) simp
  next
    case False
    then have j: "0 < j" using Suc.prems(1) by (cases j) auto
    have "m div 10 < 10 ^ j" using Suc.prems(1) by (simp add: less_mult_imp_div_less mult.commute)
    then have "length (decimal (m div 10)) \<le> j" using Suc.IH j by simp
    then show ?thesis using False by (subst decimal.simps) simp
  qed
qed

lemma decimal_length_word: "length (decimal (unat (n::64 word))) \<le> 20"
proof -
  have "unat n < 2 ^ 64" using unsigned_less[of n] by simp
  also have "(2::nat) ^ 64 \<le> 10 ^ 20" by simp
  finally show ?thesis by (intro decimal_length_le) auto
qed

lemma do_fmt_u_loop_spec:
  assumes "unat n = m" "length (decimal m) \<le> i" "i < length b"
  shows "do_fmt_u_loop n b i
    = Some (take (i + 1 - length (decimal m)) b @ decimal m @ drop (i + 1) b, i - length (decimal m))"
  using assms
proof (induction m arbitrary: n b i rule: less_induct)
  case (less m)
  obtain s where i: "i = Suc s" using less.prems(2) decimal_length_pos[of m] by (cases i) auto
  have md: "unat (n mod 10) = m mod 10" using less.prems(1) by (simp add: unat_mod)
  have dv: "unat (n div 10) = m div 10" using less.prems(1) by (simp add: unat_div)
  define d0 where "d0 = char_of (48 + m mod 10)"
  have pk: "poke b (Suc s) (char_of (48 + unat (n mod 10))) = Some (b[i := d0])"
    using less.prems(3) i md by (simp add: poke_def d0_def)
  show ?case
  proof (cases "m < 10")
    case True
    then have z: "n div 10 = 0" using dv by (simp add: unat_eq_0[symmetric])
    have dm: "decimal m = [d0]" using True by (subst decimal.simps) (simp add: d0_def)
    have "b[i := d0] = take i b @ [d0] @ drop (i + 1) b"
      using less.prems(3) by (simp add: upd_conv_take_nth_drop)
    then show ?thesis using pk z i dm by simp
  next
    case False
    then have nz: "n div 10 \<noteq> 0" using dv by (metis div_greater_zero_iff not_less unat_0 less_numeral_extra(3) zero_less_numeral)
    define k where "k = length (decimal (m div 10))"
    have dm: "decimal m = decimal (m div 10) @ [d0]" using False by (subst decimal.simps) (simp add: d0_def)
    have lk: "length (decimal m) = k + 1" using dm by (simp add: k_def)
    have lt: "m div 10 < m" using False by simp
    have ks: "k \<le> s" using less.prems(2) lk i by simp
    have kpos: "0 < k" unfolding k_def by (rule decimal_length_pos)
    have sb: "s < length (b[i := d0])" using less.prems(3) i by simp
    have ih: "do_fmt_u_loop (n div 10) (b[i := d0]) s
      = Some (take (s + 1 - k) (b[i := d0]) @ decimal (m div 10) @ drop (s + 1) (b[i := d0]), s - k)"
      using less.IH[OF lt dv _ sb] ks by (simp add: k_def)
    have t1: "take (s + 1 - k) (b[i := d0]) = take (i + 1 - (k + 1)) b" using i kpos by simp
    have t2: "drop (s + 1) (b[i := d0]) = d0 # drop (i + 1) b"
      using less.prems(3) i by (simp add: drop_update_cancel Cons_nth_drop_Suc[symmetric])
    show ?thesis using pk nz i ih t1 t2 dm lk by simp
  qed
qed

lemma do_fmt_u_Suc:
  "do_fmt_u n b (Suc s) = do {
     b \<leftarrow> poke b (Suc s) (CHR 0x00);
     (b, s) \<leftarrow> do_fmt_u_loop n b s;
     Some (b, s + 1)
   }"
  by (simp add: do_fmt_u_def)

lemma do_fmt_u_spec:
  assumes "length b = 24"
  shows "\<exists>b'. do_fmt_u n b 23 = Some (b', 23 - length (decimal (unat n)))
    \<and> length b' = 24
    \<and> drop (23 - length (decimal (unat n))) b' = decimal (unat n) @ [CHR 0x00]"
proof -
  define k where "k = length (decimal (unat n))"
  define b0 where "b0 = b[23 := CHR 0x00]"
  have k: "k \<le> 20" "0 < k" unfolding k_def using decimal_length_word decimal_length_pos by auto
  have pk: "poke b 23 (CHR 0x00) = Some b0" using assms by (simp add: poke_def b0_def)
  have l0: "length b0 = 24" using assms by (simp add: b0_def)
  define b' where "b' = take (22 + 1 - k) b0 @ decimal (unat n) @ drop (22 + 1) b0"
  have lp: "do_fmt_u_loop n b0 22 = Some (b', 22 - k)"
    unfolding b'_def k_def
    by (rule do_fmt_u_loop_spec) (use k l0 in \<open>simp_all add: k_def\<close>)
  have d23: "drop 23 b0 = [CHR 0x00]"
  proof -
    have "b0 ! 23 # drop (Suc 23) b0 = drop 23 b0" using l0 by (intro Cons_nth_drop_Suc) simp
    moreover have "drop (Suc 23) b0 = []" using l0 by simp
    moreover have "b0 ! 23 = CHR 0x00" using assms by (simp add: b0_def)
    ultimately show ?thesis by simp
  qed
  have lb': "length b' = 24" using k l0 by (simp add: b'_def k_def[symmetric])
  have "length (take (23 - k) b0) = 23 - k" using l0 by simp
  then have dr: "drop (23 - k) b' = decimal (unat n) @ [CHR 0x00]"
    using d23 by (simp add: b'_def)
  have e: "Suc (22 - k) = 23 - k" using k by simp
  have "do_fmt_u n b (Suc 22) = Some (b', 23 - k)"
    unfolding do_fmt_u_Suc using pk lp e by simp
  then have "do_fmt_u n b 23 = Some (b', 23 - k)" by simp
  then show ?thesis using lb' dr by (simp add: k_def)
qed

lemma c_str_text_nul: "CHR 0x00 \<notin> set t \<Longrightarrow> c_str (t @ [CHR 0x00]) = t"
  using c_str_append_nul[of t "[]"] by simp

lemma cat_number_spec:
  assumes v: "str_valid dest"
    and fit: "length (content dest) + length (number_text n neg) < 2 ^ 63"
  shows "\<exists>d. cat_number junk dest n neg = Some d \<and> str_valid d
    \<and> content d = content dest @ number_text n neg"
proof -
  define k where "k = length (decimal (unat n))"
  have k: "k \<le> 20" "0 < k" unfolding k_def using decimal_length_word decimal_length_pos by auto
  have lb: "length (map junk [0..<24]) = 24" by simp
  obtain b' where b': "do_fmt_u n (map junk [0..<24]) 23 = Some (b', 23 - k)" "length b' = 24"
    "drop (23 - k) b' = decimal (unat n) @ [CHR 0x00]"
    using do_fmt_u_spec[OF lb, of n] by (auto simp: k_def)
  define mem where "mem = (if neg then drop (22 - k) (b'[22 - k := CHR ''-'']) else drop (23 - k) b')"
  have mem: "mem = number_text n neg @ [CHR 0x00]"
  proof (cases neg)
    case True
    have "drop (22 - k) (b'[22 - k := CHR ''-'']) = CHR ''-'' # drop (Suc (22 - k)) b'"
      using b'(2) k by (simp add: Cons_nth_drop_Suc[symmetric] drop_update_cancel)
    moreover have "Suc (22 - k) = 23 - k" using k by simp
    ultimately show ?thesis using True b'(3) by (simp add: mem_def number_text_def)
  next
    case False
    then show ?thesis using b'(3) by (simp add: mem_def number_text_def)
  qed
  have nz: "CHR 0x00 \<notin> set (number_text n neg)"
    using decimal_no_nul[of "unat n"] by (simp add: number_text_def)
  have cs: "c_str mem = number_text n neg" unfolding mem using nz by (rule c_str_text_nul)
  have mz: "CHR 0x00 \<in> set mem" unfolding mem by simp
  have fit': "length (content dest) + length (concat (map c_str [mem])) < 2 ^ 63"
    using fit cs by simp
  have ok: "\<forall>s \<in> set [mem]. CHR 0x00 \<in> set s" using mz by simp
  obtain d where d: "str_cat junk dest [Object mem] = Some d" "str_valid d"
    "content d = content dest @ number_text n neg"
    using str_cat_spec[OF v ok fit', of junk] cs by auto
  have e: "23 - k = Suc (22 - k)" using k by simp
  have pk: "poke b' (22 - k) (CHR ''-'') = Some (b'[22 - k := CHR ''-''])"
    using b'(2) by (simp add: poke_def)
  have "cat_number junk dest n neg = Some d"
  proof (cases neg)
    case True
    then show ?thesis using b'(1) d(1) pk unfolding e
      by (simp add: cat_number_def mem_def)
  next
    case False
    then show ?thesis using b'(1) d(1)
      by (simp add: cat_number_def mem_def)
  qed
  then show ?thesis using d(2,3) by blast
qed

lemma uint_imaxabs: "uint (imaxabs j) = \<bar>sint j\<bar>"
proof -
  have lo: "- (2 ^ 63) \<le> sint j" using sint_ge[of j] by simp
  have hi: "sint j < 2 ^ 63" using sint_lt[of j] by simp
  have u: "uint j = sint j mod 2 ^ 64" using uint_sint[of j] by (simp add: take_bit_eq_mod)
  show ?thesis
  proof (cases "sint j < 0")
    case True
    have "uint (- j) = (- uint j) mod 2 ^ 64" using uint_word_ariths(4)[of j] by simp
    also have "\<dots> = (- sint j) mod 2 ^ 64" unfolding u by (simp add: mod_minus_eq)
    also have "\<dots> = - sint j" using True lo by (intro mod_pos_pos_trivial) auto
    finally show ?thesis using True by (simp add: imaxabs_def)
  next
    case False
    then have "sint j mod 2 ^ 64 = sint j" using hi by (intro mod_pos_pos_trivial) auto
    then show ?thesis using False u by (simp add: imaxabs_def)
  qed
qed

lemma unat_imaxabs: "unat (imaxabs j) = nat \<bar>sint j\<bar>"
  using uint_imaxabs[of j] by (simp add: unat_eq_nat_uint del: nat_uint_eq)

lemma number_text_signed: "number_text (imaxabs j) (sint j < 0) = decimal_int (sint j)"
  by (auto simp: number_text_def decimal_int_def unat_imaxabs abs_if)

lemma sint_scast_int: "sint (scast (i :: 32 word) :: 64 word) = sint i"
  by (rule sint_up_scast) (simp add: is_up)

lemma unat_ucast_unsigned: "unat (ucast (u :: 32 word) :: 64 word) = unat u"
proof -
  have "uint (ucast u :: 64 word) = uint u" by (rule uint_up_ucast) (simp add: is_up)
  then show ?thesis by (simp add: unat_eq_nat_uint del: nat_uint_eq)
qed

lemma number_text_length: "length (number_text n neg) \<le> 21"
  using decimal_length_word[of n] by (simp add: number_text_def)

lemma fmt_specifier_spec:
  assumes v: "str_valid dest" and r: "render_specifier c a = Some txt" and ok: "arg_ok a"
    and fit: "length (content dest) + length txt < 2 ^ 63"
  shows "\<exists>d. fmt_specifier junk dest c (a # args) = Some (d, args) \<and> str_valid d
    \<and> content d = content dest @ txt"
proof (cases a)
  case (Arg_str p)
  then obtain s where s: "a = Arg_str (Object s)" "CHR 0x00 \<in> set s" using ok by (cases p) auto
  then have c: "c = CHR ''s''" "txt = c_str s" using r by (auto split: if_splits)
  have "\<forall>x \<in> set [s]. CHR 0x00 \<in> set x" using s(2) by simp
  moreover have "length (content dest) + length (concat (map c_str [s])) < 2 ^ 63"
    using fit c by simp
  ultimately obtain d where "str_cat junk dest [Object s] = Some d" "str_valid d"
    "content d = content dest @ c_str s"
    using str_cat_spec[OF v, of "[s]" junk] by auto
  then show ?thesis using s(1) c by simp
next
  case (Arg_str_t p)
  then obtain s where s: "a = Arg_str_t (Other s)" "str_valid s" using ok by (cases p) auto
  then have c: "c = CHR ''S''" "txt = content s" using r by (auto split: if_splits)
  have "\<forall>x \<in> set [s]. str_valid x" using s(2) by simp
  moreover have "length (content dest) + length (concat (map content [s])) < 2 ^ 63"
    using fit c by simp
  ultimately obtain d where "str_cat_s junk dest [Other s] = Some d" "str_valid d"
    "content d = content dest @ content s"
    using str_cat_s_spec[OF v, of "[s]" junk] by auto
  then show ?thesis using s(1) c by simp
next
  case (Arg_int i)
  then have c: "c = CHR ''i''" "txt = decimal_int (sint i)" using r by (auto split: if_splits)
  define j :: intmax_t where "j = scast i"
  have sj: "sint j = sint i" unfolding j_def by (rule sint_scast_int)
  have "number_text (imaxabs j) (sint j < 0) = decimal_int (sint j)" by (rule number_text_signed)
  then have t: "number_text (imaxabs j) (sint j < 0) = txt" using c sj by simp
  have "length (content dest) + length (number_text (imaxabs j) (sint j < 0)) < 2 ^ 63"
    using fit t by simp
  from cat_number_spec[OF v this, of junk] obtain d where
    "cat_number junk dest (imaxabs j) (sint j < 0) = Some d" "str_valid d" "content d = content dest @ txt"
    using t by auto
  then show ?thesis using Arg_int c sj by (simp add: j_def)
next
  case (Arg_intmax j)
  then have c: "c = CHR ''I''" "txt = decimal_int (sint j)" using r by (auto split: if_splits)
  have t: "number_text (imaxabs j) (sint j < 0) = txt" using c by (simp add: number_text_signed)
  have "length (content dest) + length (number_text (imaxabs j) (sint j < 0)) < 2 ^ 63"
    using fit t by simp
  from cat_number_spec[OF v this, of junk] obtain d where
    "cat_number junk dest (imaxabs j) (sint j < 0) = Some d" "str_valid d" "content d = content dest @ txt"
    using t by auto
  then show ?thesis using Arg_intmax c by simp
next
  case (Arg_unsigned u)
  then have c: "c = CHR ''u''" "txt = decimal (unat u)" using r by (auto split: if_splits)
  have t: "number_text (ucast u) False = txt" using c by (simp add: number_text_def unat_ucast_unsigned)
  have "length (content dest) + length (number_text (ucast u :: uintmax_t) False) < 2 ^ 63"
    using fit t by simp
  from cat_number_spec[OF v this, of junk] obtain d where
    "cat_number junk dest (ucast u) False = Some d" "str_valid d" "content d = content dest @ txt"
    using t by auto
  then show ?thesis using Arg_unsigned c by simp
next
  case (Arg_uintmax u)
  then have c: "c = CHR ''U''" "txt = decimal (unat u)" using r by (auto split: if_splits)
  have t: "number_text u False = txt" using c by (simp add: number_text_def)
  have "length (content dest) + length (number_text u False) < 2 ^ 63"
    using fit t by simp
  from cat_number_spec[OF v this, of junk] obtain d where
    "cat_number junk dest u False = Some d" "str_valid d" "content d = content dest @ txt"
    using t by auto
  then show ?thesis using Arg_uintmax c by simp
qed

lemma str_ncat_prefix_spec:
  assumes v: "str_valid dest" and t: "CHR 0x00 \<in> set src"
    and fit0: "length (c_str src) < 2 ^ 63"
    and fit: "length (content dest) + min (unat n) (length (c_str src)) < 2 ^ 63"
  shows "\<exists>d. str_ncat junk dest (Object src) n = Some d \<and> str_valid d
    \<and> content d = content dest @ take (unat n) (c_str src)"
proof -
  obtain l where l: "strlen src = Some l" "unat l = length (c_str src)" "unat l < length src"
    "take (unat l) src = c_str src"
    using strlen_Some[OF t fit0] by blast
  define n' where "n' = (if l < n then l else n)"
  define N where "N = unat n'"
  have N: "N = min (unat n) (unat l)" unfolding N_def n'_def by (rule min_size_t)
  have Nl: "N \<le> unat l" using N by simp
  have tk2: "take N src = take (unat n) (c_str src)"
    using l(2) N by (simp add: take_c_str)
  have a: "unat n' \<le> length src" using Nl l(3) by (simp add: N_def)
  have b: "unat (len dest) + unat n' < 2 ^ 63"
    using N l(2) fit content_length[OF v] by (simp add: N_def)
  have "CHR 0x00 \<notin> set (take (unat n) (c_str src))"
    using c_str_no_nul[of src] by (auto dest: in_set_takeD)
  then have c: "CHR 0x00 \<notin> set (take (unat n') src)" using tk2 by (simp add: N_def)
  obtain d where d: "do_str_cat junk dest (Object src) n' = Some d" "str_valid d"
    "content d = content dest @ take (unat n') src"
    using do_str_cat_spec[OF v a b c, of junk] by blast
  have "str_ncat junk dest (Object src) n = Some d"
    using l(1) d(1) by (simp add: str_ncat_def Let_def n'_def[symmetric])
  then show ?thesis using d(2,3) tk2 by (simp add: N_def)
qed

lemma render_literal: "CHR ''%'' \<notin> set t \<Longrightarrow> render t args = Some t"
  by (induction t args rule: render.induct) auto

lemma render_after_literal:
  assumes "CHR ''%'' \<notin> set lit"
  shows "render (lit @ CHR ''%'' # x # t) args =
     (case args of [] \<Rightarrow> None
      | a # args' \<Rightarrow> (case render_specifier x a of None \<Rightarrow> None
          | Some r \<Rightarrow> map_option (\<lambda>rest. lit @ r @ rest) (render t args')))"
  using assms
proof (induction lit)
  case Nil
  show ?case by (auto split: list.splits option.splits)
next
  case (Cons c lit)
  then have c: "c \<noteq> CHR ''%''" and l: "CHR ''%'' \<notin> set lit" by auto
  obtain y ys where y: "lit @ CHR ''%'' # x # t = y # ys" by (cases lit) auto
  have "render (c # y # ys) args = map_option (\<lambda>rest. c # rest) (render (y # ys) args)"
    using c by simp
  then have "render ((c # lit) @ CHR ''%'' # x # t) args
      = map_option (\<lambda>rest. c # rest) (render (lit @ CHR ''%'' # x # t) args)"
    using y by simp
  then show ?case using Cons.IH[OF l]
    by (auto split: list.splits option.splits simp: option.map_comp comp_def)
qed

lemma render_dangling:
  assumes "CHR ''%'' \<notin> set lit"
  shows "render (lit @ [CHR ''%'']) args = None"
  using assms
proof (induction lit)
  case Nil
  show ?case by simp
next
  case (Cons c lit)
  then have c: "c \<noteq> CHR ''%''" and l: "CHR ''%'' \<notin> set lit" by auto
  obtain y ys where y: "lit @ [CHR ''%''] = y # ys" by (cases lit) auto
  have "render (c # y # ys) args = map_option (\<lambda>rest. c # rest) (render (y # ys) args)"
    using c by simp
  then show ?case using y Cons.IH[OF l] by simp
qed

lemma memory_split: "CHR 0x00 \<in> set m \<Longrightarrow> \<exists>tail. m = c_str m @ CHR 0x00 # tail"
proof -
  assume "CHR 0x00 \<in> set m"
  then have "dropWhile (\<lambda>c. c \<noteq> CHR 0x00) m \<noteq> []" by (simp add: dropWhile_eq_Nil_conv)
  then obtain y ys where y: "dropWhile (\<lambda>c. c \<noteq> CHR 0x00) m = y # ys"
    by (cases "dropWhile (\<lambda>c. c \<noteq> CHR 0x00) m") auto
  then have "y = CHR 0x00" using hd_dropWhile[of "\<lambda>c. c \<noteq> CHR 0x00" m] by auto
  then have "m = c_str m @ CHR 0x00 # ys"
    using y takeWhile_dropWhile_id[of "\<lambda>c. c \<noteq> CHR 0x00" m] by (simp add: c_str_def)
  then show ?thesis by blast
qed

lemma unat_sub_fit:
  fixes a :: size_t
  assumes "k \<le> unat a"
  shows "unat (a - of_nat k) = unat a - k"
proof -
  have "unat a < 2 ^ LENGTH(64)" by (rule unsigned_less)
  then have k: "k < 2 ^ LENGTH(64)" using assms by simp
  have uk: "unat (of_nat k :: size_t) = k" using k by (rule of_nat_inverse[OF refl])
  have "(of_nat k :: size_t) \<le> a" using assms uk by (simp add: word_le_nat_alt)
  then have "unat (a - of_nat k) = unat a - unat (of_nat k :: size_t)" by (rule unat_sub)
  then show ?thesis using uk by simp
qed

lemma str_cat_fmt_loop_spec:
  assumes "str_valid dest" "CHR 0x00 \<in> set fmt" "unat bytesLeft = length (c_str fmt)"
    and "length (c_str fmt) < 2 ^ 63" "render (c_str fmt) args = Some res"
    and "\<forall>a \<in> set args. arg_ok a" "length (content dest) + length res < 2 ^ 63"
  shows "\<exists>d. str_cat_fmt_loop junk dest fmt bytesLeft args = Some d \<and> str_valid d
    \<and> content d = content dest @ res"
  using assms
proof (induction "length (c_str fmt)" arbitrary: dest fmt bytesLeft args res rule: less_induct)
  case less
  define body where "body = c_str fmt"
  obtain tail where fmt: "fmt = body @ CHR 0x00 # tail"
    using memory_split[OF less.prems(2)] by (auto simp: body_def)
  have bl: "unat bytesLeft = length body" using less.prems(3) by (simp add: body_def)
  have bz: "CHR 0x00 \<notin> set body" unfolding body_def by (rule c_str_no_nul)
  have rd: "render body args = Some res" using less.prems(5) by (simp add: body_def)
  have lf: "\<not> length fmt < unat bytesLeft" using bl fmt by simp
  have tkb: "take (length body) fmt = body" using fmt by simp
  have mc: "memchr fmt (CHR ''%'') (unat bytesLeft) = (CHR ''%'' \<in> set body)"
    using bl tkb by (simp add: memchr_def)
  show ?case
  proof (cases "body = []")
    case True
    then have "bytesLeft = 0" using bl by (simp add: unat_eq_0)
    moreover have "res = []" using rd True by simp
    ultimately show ?thesis using less.prems(1) by (subst str_cat_fmt_loop.simps) simp
  next
    case nonempty: False
    then have b0: "bytesLeft \<noteq> 0" using bl by (metis length_0_conv unat_0)
    show ?thesis
    proof (cases "CHR ''%'' \<in> set body")
      case False
      then have res: "res = body" using rd render_literal[of body args] by simp
      have ok: "\<forall>s \<in> set [fmt]. CHR 0x00 \<in> set s" using less.prems(2) by simp
      have fit: "length (content dest) + length (concat (map c_str [fmt])) < 2 ^ 63"
        using less.prems(7) res by (simp add: body_def)
      obtain d where "str_cat junk dest [Object fmt] = Some d" "str_valid d"
        "content d = content dest @ body"
        using str_cat_spec[OF less.prems(1) ok fit, of junk] by (auto simp: body_def)
      then show ?thesis using b0 lf mc False res
        by (subst str_cat_fmt_loop.simps) simp
    next
      case True
      define lit where "lit = takeWhile (\<lambda>c. c \<noteq> CHR ''%'') body"
      define i where "i = length lit"
      have lp: "CHR ''%'' \<notin> set lit" unfolding lit_def by (auto dest: set_takeWhileD)
      have "dropWhile (\<lambda>c. c \<noteq> CHR ''%'') body \<noteq> []" using True by (simp add: dropWhile_eq_Nil_conv)
      then obtain y rest where y: "dropWhile (\<lambda>c. c \<noteq> CHR ''%'') body = y # rest"
        by (cases "dropWhile (\<lambda>c. c \<noteq> CHR ''%'') body") auto
      then have "y = CHR ''%''" using hd_dropWhile[of "\<lambda>c. c \<noteq> CHR ''%''" body] by auto
      then have b1: "body = lit @ CHR ''%'' # rest"
        using y takeWhile_dropWhile_id[of "\<lambda>c. c \<noteq> CHR ''%''" body] by (simp add: lit_def)
      have "rest \<noteq> []" using rd render_dangling[OF lp, of args] b1 by auto
      then obtain x t where rest: "rest = x # t" by (cases rest) auto
      have b2: "body = lit @ CHR ''%'' # x # t" using b1 rest by simp
      obtain a args' r res' where ar: "args = a # args'" "render_specifier x a = Some r"
        "render t args' = Some res'" "res = lit @ r @ res'"
        using rd render_after_literal[OF lp, of x t args] unfolding b2
        by (auto split: list.splits option.splits)
      have "takeWhile (\<lambda>c. c \<noteq> CHR ''%'') fmt = lit"
        unfolding fmt lit_def using True by (simp add: takeWhile_append1)
      then have ii: "length (takeWhile (\<lambda>c. c \<noteq> CHR ''%'') fmt) = i" by (simp add: i_def)
      have lb: "length body = i + 2 + length t" using b2 by (simp add: i_def)
      have f2: "fmt = lit @ CHR ''%'' # x # (t @ CHR 0x00 # tail)" using fmt b2 by simp
      have lfi: "\<not> length fmt \<le> i + 1" using f2 by (simp add: i_def)
      have nth: "fmt ! (i + 1) = x" using f2 by (simp add: i_def nth_append)
      have dr: "drop (i + 2) fmt = t @ CHR 0x00 # tail" using f2 by (simp add: i_def)
      have tz: "CHR 0x00 \<notin> set t" using bz b2 by simp
      have cs': "c_str (drop (i + 2) fmt) = t" unfolding dr using tz by (rule c_str_append_nul)
      have z': "CHR 0x00 \<in> set (drop (i + 2) fmt)" unfolding dr by simp
      have "i + 2 \<le> unat bytesLeft" using bl lb by simp
      then have "unat (bytesLeft - of_nat (i + 2)) = unat bytesLeft - (i + 2)" by (rule unat_sub_fit)
      then have bl': "unat (bytesLeft - of_nat (i + 2)) = length (c_str (drop (i + 2) fmt))"
        using bl lb cs' by simp
      have lt: "length (c_str (drop (i + 2) fmt)) < length (c_str fmt)"
        using cs' lb by (simp add: body_def)
      have fitb: "length body < 2 ^ 63" using less.prems(4) by (simp add: body_def)
      have i63: "i < 2 ^ 63" using fitb lb by simp
      have ui: "unat (of_nat i :: size_t) = i" using i63 by (rule unat_of_nat_fit)
      have tl: "take i body = lit" using b2 by (simp add: i_def)
      obtain d1 where d1: "(if 0 < i then str_ncat junk dest (Object fmt) (of_nat i) else Some dest) = Some d1"
        "str_valid d1" "content d1 = content dest @ lit"
      proof (cases "0 < i")
        case False
        then have "lit = []" by (simp add: i_def)
        then show ?thesis using that[of dest] False less.prems(1) by simp
      next
        case True
        have "length (content dest) + min (unat (of_nat i :: size_t)) (length (c_str fmt)) < 2 ^ 63"
          using less.prems(7) ar(4) ui by (simp add: i_def)
        from str_ncat_prefix_spec[OF less.prems(1,2,4) this, of junk]
        obtain d where "str_ncat junk dest (Object fmt) (of_nat i) = Some d" "str_valid d"
          "content d = content dest @ lit"
          using ui tl by (auto simp: body_def)
        then show ?thesis using that[of d] True by simp
      qed
      have oka: "arg_ok a" using less.prems(6) ar(1) by simp
      have fit2: "length (content d1) + length r < 2 ^ 63" using less.prems(7) ar(4) d1(3) by simp
      obtain d2 where d2: "fmt_specifier junk d1 x (a # args') = Some (d2, args')" "str_valid d2"
        "content d2 = content d1 @ r"
        using fmt_specifier_spec[OF d1(2) ar(2) oka fit2, of junk args'] by blast
      have okr: "\<forall>a \<in> set args'. arg_ok a" using less.prems(6) ar(1) by simp
      have fit3: "length (content d2) + length res' < 2 ^ 63"
        using less.prems(7) ar(4) d1(3) d2(3) by simp
      have fit4: "length (c_str (drop (i + 2) fmt)) < 2 ^ 63" using lt less.prems(4) by simp
      have rd': "render (c_str (drop (i + 2) fmt)) args' = Some res'" using ar(3) cs' by simp
      from less.hyps[OF lt d2(2) z' bl' fit4 rd' okr fit3]
      obtain d where d: "str_cat_fmt_loop junk d2 (drop (i + 2) fmt) (bytesLeft - of_nat (i + 2)) args' = Some d"
        "str_valid d" "content d = content d2 @ res'" by blast
      have "str_cat_fmt_loop junk dest fmt bytesLeft args = Some d"
        using b0 lf mc True ii lfi d1(1) nth ar(1) d2(1) d(1)
        by (subst str_cat_fmt_loop.simps) (simp add: Let_def)
      then show ?thesis using d(2,3) d2(3) d1(3) ar(4) by simp
    qed
  qed
qed

lemma str_cat_fmt_spec:
  assumes "str_valid dest" "CHR 0x00 \<in> set fmt" "length (c_str fmt) < 2 ^ 63"
    and "render (c_str fmt) args = Some res"
    and "\<forall>a \<in> set args. arg_ok a" "length (content dest) + length res < 2 ^ 63"
  shows "\<exists>d. str_cat_fmt junk dest fmt args = Some d \<and> str_valid d
    \<and> content d = content dest @ res"
proof -
  obtain n where n: "strlen fmt = Some n" "unat n = length (c_str fmt)"
    using strlen_Some[OF assms(2,3)] by blast
  show ?thesis
    using str_cat_fmt_loop_spec[OF assms(1,2) n(2) assms(3,4,5,6), where junk = junk] n(1)
    by (simp add: str_cat_fmt_def)
qed

lemma decimal_int_length: "length (decimal_int (sint (j :: intmax_t))) \<le> 21"
  using number_text_length[of "imaxabs j" "sint j < 0"] by (simp add: number_text_signed)

lemma decimal_int_length32: "length (decimal_int (sint (i :: 32 word))) \<le> 21"
  using decimal_int_length[of "scast i"] by (simp add: sint_scast_int)

lemma decimal_length64: "length (decimal (unat (u :: uintmax_t))) \<le> 21"
  using number_text_length[of u False] by (simp add: number_text_def)

lemma decimal_length32: "length (decimal (unat (u :: 32 word))) \<le> 21"
  using decimal_length64[of "ucast u"] by (simp add: unat_ucast_unsigned)

lemma c_str_fmt_literal [simp]:
  "c_str (literal ''%i'') = ''%i''" "c_str (literal ''%I'') = ''%I''"
  "c_str (literal ''%u'') = ''%u''" "c_str (literal ''%U'') = ''%U''"
  "c_str (literal ''%i apples, %u oranges'') = ''%i apples, %u oranges''"
  by (simp_all add: c_str_literal)

lemma render_example:
  "render ''%i apples, %u oranges'' [Arg_int (- 5), Arg_unsigned 3] = Some ''-5 apples, 3 oranges''"
  by code_simp


lemma decimal_examples:
  "decimal 5 = ''5''" "decimal 3 = ''3''"
  "decimal (nat (- sint (- 5 :: 32 word))) = ''5''"
  by (simp_all add: decimal.simps char_of_eq_iff)

lemma decimal_examples2:
  "decimal (unat (4294967295 :: 32 word)) = ''4294967295''"
  "decimal (nat (- sint (- 9223372036854775808 :: intmax_t))) = ''9223372036854775808''"
  "decimal (unat (18446744073709551615 :: uintmax_t)) = ''18446744073709551615''"
  by (simp_all add: decimal.simps char_of_eq_iff)

subsection \<open>Facts about sequences of operations\<close>

lemma str_round_up_1: "str_round_up 1 = Some 16"
  by (simp add: str_round_up_def sizeof_size_t_def str_round_up_loop.simps)

lemma str_new_spec: "\<exists>d. str_new junk = Some d \<and> str_valid d \<and> content d = []"
proof -
  define m where "m = (map junk [0..<16])[0 := CHR 0x00]"
  define d where "d = \<lparr>len = 0, alloc = 16, buf = Some m\<rparr>"
  have "str_new junk = Some d"
    by (simp add: str_new_def str_round_up_1 malloc_def poke_def d_def m_def Let_def)
  moreover have "str_valid d"
    by (rule str_validI[where m = m and p = 16]) (simp_all add: d_def m_def str_round_up_1)
  moreover have "content d = []" by (simp add: content_def d_def)
  ultimately show ?thesis by blast
qed

lemma str_dup_spec:
  assumes t: "CHR 0x00 \<in> set src" and fit: "length (c_str src) < 2 ^ 63"
  shows "\<exists>d. str_dup junk src = Some d \<and> str_valid d \<and> content d = c_str src"
proof -
  obtain n where n: "strlen src = Some n" "unat n = length (c_str src)" "unat n < length src"
    "src ! unat n = CHR 0x00" "take (unat n) src = c_str src"
    using strlen_Some[OF t fit] by blast
  have fit': "unat n < 2 ^ 63" using n(2) fit by simp
  obtain p where p: "str_round_up (n + 1) = Some p" "unat n < unat p"
    using str_round_up_succ[OF fit'] by blast
  define N where "N = unat n"
  have suc: "unat (n + 1) = N + 1" unfolding N_def using fit' by (rule unat_succ)
  define m0 where "m0 = map junk [0..<unat p]"
  have l0: "length m0 = unat p" by (simp add: m0_def)
  have a: "0 + (N + 1) \<le> length m0" using p(2) l0 by (simp add: N_def)
  have b: "N + 1 \<le> length src" using n(3) by (simp add: N_def)
  obtain m where m: "memcpy m0 0 src (N + 1) = Some m" "length m = length m0"
    "take (0 + (N + 1)) m = take 0 m0 @ take (N + 1) src"
    using memcpy_Some[OF a b] by metis
  define d where "d = \<lparr>len = n, alloc = p, buf = Some m\<rparr>"
  have run: "str_dup junk src = Some d"
    using n(1) p(1) m(1) suc by (simp add: str_dup_def malloc_def m0_def[symmetric] d_def)
  have Nm: "N < length m" using m(2) l0 p(2) by (simp add: N_def)
  have tk: "take N m = take N src" "m ! N = src ! N"
    using take_Suc_nul[of N m src] Nm m(3) n(3) by (auto simp: N_def)
  have "str_valid d"
    using p(1) m(2) l0 Nm tk n(4,5) c_str_no_nul[of src]
    by (intro str_validI[where m = m and p = p]) (auto simp: d_def N_def)
  moreover have "content d = c_str src" using tk(1) n(5) by (simp add: content_def d_def N_def)
  ultimately show ?thesis using run by blast
qed

lemma construct_spec:
  assumes "constructor_ok c" "constructor_bytes c < 2 ^ 63"
  shows "\<exists>d. construct junk c = Some d \<and> str_valid d \<and> length (content d) = constructor_bytes c"
proof (cases c)
  case Create
  then show ?thesis using str_new_spec[of junk] by auto
next
  case (Create_from src)
  then show ?thesis using str_dup_spec[of src junk] assms by auto
qed

lemma int_of_char_eq_0: "(int_of_char c = 0) = (c = CHR 0x00)"
proof
  assume "int_of_char c = 0"
  then have "char_of (int_of_char c) = char_of (0::int)" by simp
  then show "c = CHR 0x00" by (simp only: int_of_char_inverse char_of_0)
next
  assume "c = CHR 0x00"
  then show "int_of_char c = 0" by (simp add: int_of_char_def)
qed

lemma takeWhile_int_of_char:
  "takeWhile (\<lambda>c. c \<noteq> 0) (map int_of_char cs) = map int_of_char (c_str cs)"
  by (induction cs) (auto simp: c_str_def int_of_char_eq_0)

lemma str_putc_chars_spec:
  assumes "str_valid dest" "length (content dest) + length cs < 2 ^ 63"
  shows "\<exists>d. str_putc junk dest (map int_of_char cs) = Some d \<and> str_valid d
    \<and> content d = content dest @ c_str cs"
proof -
  let ?xs = "takeWhile (\<lambda>c. c \<noteq> 0) (map int_of_char cs)"
  have xs: "?xs = map int_of_char (c_str cs)" by (rule takeWhile_int_of_char)
  have nz: "\<forall>c \<in> set ?xs. char_of c \<noteq> CHR 0x00"
    unfolding xs using c_str_no_nul[of cs] by (auto simp: int_of_char_inverse)
  have "length (c_str cs) \<le> length cs" unfolding c_str_def by (rule length_takeWhile_le)
  then have fit: "length (content dest) + length ?xs < 2 ^ 63" using assms(2) unfolding xs by simp
  have "map char_of ?xs = c_str cs" unfolding xs by (simp add: comp_def int_of_char_inverse)
  then show ?thesis using str_putc_spec[OF assms(1) nz fit, of junk] by simp
qed

lemma string_okE:
  assumes "string_ok p"
  obtains s where "p = Object s" "CHR 0x00 \<in> set s" "string_bytes p = c_str s"
  using assms by (cases p) auto

lemma apply_op_spec:
  assumes v: "str_valid dest" and ok: "op_ok x"
    and fit: "length (content dest) + op_bytes x < 2 ^ 63"
  shows "\<exists>d. apply_op junk dest x = Some d \<and> str_valid d
    \<and> length (content d) \<le> length (content dest) + op_bytes x"
proof (cases x)
  case (Copy_from src)
  then obtain s where "src = Object s" "CHR 0x00 \<in> set s" "string_bytes src = c_str s"
    using ok string_okE[of src] by auto
  then show ?thesis using str_cpy_spec[OF v, of s junk] Copy_from fit by auto
next
  case (Copy_from_buffer src)
  show ?thesis
  proof (cases src)
    case Dest
    then show ?thesis using Copy_from_buffer str_cpy_s_Dest[OF v, of junk] v by simp
  next
    case (Other s)
    then show ?thesis using Copy_from_buffer str_cpy_s_spec[OF v, of s junk] ok by auto
  qed
next
  case (Copy_bounded src n)
  then obtain s where "src = Object s" "CHR 0x00 \<in> set s" "string_bytes src = c_str s"
    using ok string_okE[of src] by auto
  then show ?thesis using str_ncpy_spec[OF v, of s junk n] Copy_bounded fit by auto
next
  case (Append srcs)
  then show ?thesis using str_cat_pointers_spec[OF v, of srcs junk] ok fit by auto
next
  case (Append_buffers srcs)
  then show ?thesis using str_cat_s_refs_spec[OF v, of srcs junk] ok fit by auto
next
  case (Append_bounded src n)
  then obtain s where "src = Object s" "CHR 0x00 \<in> set s" "string_bytes src = c_str s"
    using ok string_okE[of src] by auto
  then show ?thesis using str_ncat_spec[OF v, of s junk n] Append_bounded fit by auto
next
  case (Append_chars cs)
  have "length (c_str cs) \<le> length cs" unfolding c_str_def by (rule length_takeWhile_le)
  then show ?thesis using Append_chars str_putc_chars_spec[OF v, of cs junk] fit by auto
next
  case (Append_formatted fmt args)
  then obtain r where r: "render (c_str fmt) args = Some r" using ok by auto
  have a: "CHR 0x00 \<in> set fmt" "\<forall>a \<in> set args. arg_ok a"
    using ok Append_formatted by (auto simp: list_all_iff)
  have b: "length (c_str fmt) < 2 ^ 63" "length (content dest) + length r < 2 ^ 63"
    using fit Append_formatted r by auto
  show ?thesis
    using str_cat_fmt_spec[OF v a(1) b(1) r a(2) b(2), where junk = junk] Append_formatted r by auto
qed

lemma run_ops_spec:
  assumes "str_valid dest" "\<forall>x \<in> set ops. op_ok x"
    and "length (content dest) + sum_list (map op_bytes ops) < 2 ^ 63"
  shows "\<exists>ds. run_ops junk dest ops = Some ds \<and> length ds = length ops
    \<and> (\<forall>d \<in> set ds. str_valid d)"
  using assms
proof (induction ops arbitrary: dest)
  case Nil
  then show ?case by simp
next
  case (Cons x ops)
  have ok: "op_ok x" using Cons.prems(2) by simp
  have fit: "length (content dest) + op_bytes x < 2 ^ 63" using Cons.prems(3) by simp
  obtain d where d: "apply_op junk dest x = Some d" "str_valid d"
    "length (content d) \<le> length (content dest) + op_bytes x"
    using apply_op_spec[OF Cons.prems(1) ok fit, of junk] by blast
  have fit1: "length (content d) + sum_list (map op_bytes ops) < 2 ^ 63"
    using Cons.prems(3) d(3) by simp
  have "\<forall>x \<in> set ops. op_ok x" using Cons.prems(2) by simp
  from Cons.IH[OF d(2) this fit1] obtain ds where
    "run_ops junk d ops = Some ds" "length ds = length ops" "\<forall>d \<in> set ds. str_valid d" by blast
  then show ?case using d(1,2) by simp
qed

subsection \<open>Facts about the examples\<close>

lemma str_round_up_small: "str_round_up 2 = Some 16"
  by (simp add: str_round_up_def sizeof_size_t_def str_round_up_loop.simps)

lemma token_a_valid: "str_valid token_a"
  by (simp add: str_valid_def str_ok_def owns_alloc_def token_a_def str_round_up_small)

lemma str_round_up_3: "str_round_up 3 = Some 16"
  by (simp add: str_round_up_def sizeof_size_t_def str_round_up_loop.simps)

lemma buffer_ab_valid: "str_valid buffer_ab"
  by (simp add: str_valid_def str_ok_def owns_alloc_def buffer_ab_def str_round_up_3)

lemma buffer_ef_valid: "str_valid buffer_ef"
  by (simp add: str_valid_def str_ok_def owns_alloc_def buffer_ef_def str_round_up_3)

lemma str_round_up_9: "str_round_up 9 = Some 16"
  by (simp add: str_round_up_def sizeof_size_t_def str_round_up_loop.simps)

lemma buffer_abcdefgh_valid: "str_valid buffer_abcdefgh"
  by (simp add: str_valid_def str_ok_def owns_alloc_def buffer_abcdefgh_def str_round_up_9)

text \<open>
  A buffer appended to itself while its storage is large enough: the source is read in
  the storage, where it still is.
\<close>

lemma append_to_itself_in_place:
  "map_option content (str_cat_s junk0 buffer_ab [Dest]) = Some ''abab''"
  by code_simp

section \<open>Claims\<close>

text \<open>
  C2, as the specification states it: for every \<open>n\<close>, \<open>capacityFor(n)\<close> is the smallest power
  of two that is at least \<open>n\<close> and at least twice the machine word size. On the code this
  fails for a request above \<open>2 ^ 63\<close>: no such power of two fits in a \<^verbatim>\<open>size_t\<close>, and
  \<^verbatim>\<open>str_round_up\<close> does not return at all, here at \<open>n = 2 ^ 63 + 1\<close>.
\<close>

theorem str_round_up_no_result: "str_round_up (2 ^ 63 + 1) = None"
  by (rule str_round_up_None) simp

text \<open>
  C2, amended: for every \<open>n \<le> 2 ^ 63\<close>, \<^verbatim>\<open>str_round_up(n)\<close> returns the smallest \<open>p\<close> that is
  a power of two, at least twice the machine word size, and at least \<open>n\<close>; on these
  arguments it is monotonic (\<open>n \<le> m\<close> gives \<open>p \<le> q\<close> for the result \<open>q\<close> at \<open>m\<close>).
\<close>

theorem str_round_up_smallest_pow2:
  assumes "n \<le> m" and "m \<le> 2 ^ 63"
  shows "\<exists>p q. str_round_up n = Some p \<and> str_round_up m = Some q
    \<and> is_pow2 p \<and> 2 * sizeof_size_t \<le> p \<and> n \<le> p
    \<and> (\<forall>r. is_pow2 r \<and> 2 * sizeof_size_t \<le> r \<and> n \<le> r \<longrightarrow> p \<le> r)
    \<and> p \<le> q"
proof -
  have n: "n \<le> 2 ^ 63" using assms by simp
  obtain j where j: "4 \<le> j" "j \<le> 63" "str_round_up n = Some (2 ^ j)" "n \<le> 2 ^ j"
    using str_round_up_Some[OF n] by blast
  obtain i where i: "4 \<le> i" "i \<le> 63" "str_round_up m = Some (2 ^ i)" "m \<le> 2 ^ i"
    using str_round_up_Some[OF assms(2)] by blast
  have pj: "is_pow2 (2 ^ j)" using j(2) by (auto simp: is_pow2_def)
  have pi: "is_pow2 (2 ^ i)" using i(2) by (auto simp: is_pow2_def)
  have lo: "2 * sizeof_size_t \<le> (2::size_t) ^ j"
    using pow2_le[of 4 j] j by (simp add: sizeof_size_t_def)
  have loi: "2 * sizeof_size_t \<le> (2::size_t) ^ i"
    using pow2_le[of 4 i] i by (simp add: sizeof_size_t_def)
  have least: "\<forall>r. is_pow2 r \<and> 2 * sizeof_size_t \<le> r \<and> n \<le> r \<longrightarrow> 2 ^ j \<le> r"
    using str_round_up_least[OF n j(3)] by blast
  have "n \<le> 2 ^ i" using assms(1) i(4) by simp
  then have "(2::size_t) ^ j \<le> 2 ^ i" using least pi loi by blast
  then show ?thesis using j i pj lo least by blast
qed

theorem str_round_up_smallest_pow2_witness:
  "(17::size_t) \<le> 100 \<and> (100::size_t) \<le> 2 ^ 63
   \<and> (\<exists>p q. str_round_up 17 = Some p \<and> str_round_up 100 = Some q
    \<and> is_pow2 p \<and> 2 * sizeof_size_t \<le> p \<and> 17 \<le> p
    \<and> (\<forall>r. is_pow2 r \<and> 2 * sizeof_size_t \<le> r \<and> 17 \<le> r \<longrightarrow> p \<le> r)
    \<and> p \<le> q)"
  using str_round_up_smallest_pow2[of 17 100] by simp

text \<open>
  C3, as the specification states it: for every valid destination and every ordered list
  of fragments, each a byte sequence or a reference to a valid buffer, \<open>append\<close> leaves in
  the destination its prior content followed by the bytes of each fragment in order. On
  the code this fails for a fragment that is the destination itself. The fragments are
  read one after the other, each when its turn comes: \<^verbatim>\<open>str_cat_s(&d, &d, &d)\<close> on a
  destination that holds \<open>"ab"\<close> appends \<open>"ab"\<close> and then \<open>"abab"\<close>, where the claim has
  \<open>"ab"\<close> twice. And when the storage has to grow, \<^verbatim>\<open>str_resize\<close> hands it to \<^verbatim>\<open>realloc\<close>
  before \<^verbatim>\<open>memcpy\<close> reads the fragment through the pointer \<^verbatim>\<open>do_str_cat\<close> was given:
  \<^verbatim>\<open>str_cat_s(&d, &d)\<close> on a destination that holds \<open>"abcdefgh"\<close> in 16 bytes has no defined
  result.
\<close>

theorem append_of_destination_fails:
  "str_valid buffer_ab \<and> content buffer_ab = ''ab''
   \<and> map_option content (append_calls junk0 buffer_ab [Cat_s [Dest, Dest]]) = Some ''abababab''
   \<and> str_valid buffer_abcdefgh \<and> content buffer_abcdefgh = ''abcdefgh''
   \<and> append_calls junk0 buffer_abcdefgh [Cat_s [Dest]] = None"
  by code_simp

text \<open>
  C3, amended: for every valid destination and every ordered list of fragments, each a
  C string that lies outside the storage of the destination or a reference to another
  valid buffer, \<open>append\<close> leaves in the destination its prior content followed by the
  bytes of each fragment in order. The hypothesis on the length says that the result
  stays below \<open>2 ^ 63\<close> bytes, which every buffer in a 64-bit address space does.
\<close>

theorem append_concatenates:
  assumes "str_valid dest" and "\<forall>c \<in> set calls. fragments_ok c"
    and "length (content dest) + length (concat (map fragment_bytes calls)) < 2 ^ 63"
  shows "\<exists>d. append_calls junk dest calls = Some d \<and> str_valid d
    \<and> content d = content dest @ concat (map fragment_bytes calls)"
  using assms by (rule append_calls_spec)

text \<open>
  C3, amended, at the example of the claim: starting from \<open>"ab"\<close>, appending the fragment
  \<open>"cd"\<close> and then a buffer that holds \<open>"ef"\<close> yields \<open>"abcdef"\<close>.
\<close>

theorem append_concatenates_witness:
  "str_valid buffer_ab \<and> fragments_ok (Cat [Object (literal ''cd'')])
   \<and> fragments_ok (Cat_s [Other buffer_ef]) \<and> content buffer_ab = ''ab''
   \<and> (\<exists>d. append_calls junk0 buffer_ab [Cat [Object (literal ''cd'')], Cat_s [Other buffer_ef]]
          = Some d
        \<and> str_valid d \<and> content d = ''abcdef'')"
proof -
  have c: "content buffer_ab = ''ab''" "content buffer_ef = ''ef''"
    by (simp_all add: content_def buffer_ab_def buffer_ef_def)
  have cs: "c_str (literal ''cd'') = ''cd''" by (simp add: c_str_literal)
  have ok: "\<forall>c \<in> set [Cat [Object (literal ''cd'')], Cat_s [Other buffer_ef]]. fragments_ok c"
    by (simp add: buffer_ef_valid nul_in_literal)
  have fit: "length (content buffer_ab)
      + length (concat (map fragment_bytes [Cat [Object (literal ''cd'')], Cat_s [Other buffer_ef]]))
      < 2 ^ 63"
    by (simp add: c cs)
  show ?thesis
    using append_concatenates[OF buffer_ab_valid ok fit, of junk0] ok buffer_ab_valid
    by (simp add: c cs)
qed

text \<open>
  C7, as the specification states it: with the exhausted sentinel as remaining input,
  \<^verbatim>\<open>str_tok\<close> returns the sentinel and leaves the token buffer empty. The code returns
  before it touches the token: a token buffer that holds \<open>"a"\<close> still holds it.
\<close>

theorem str_tok_null_keeps_token:
  "str_valid token_a \<and> content token_a = ''a''
   \<and> str_tok junk0 None token_a (literal '' '') = Some (None, token_a)"
  by (simp add: token_a_valid str_tok_def) (simp add: content_def token_a_def)

text \<open>
  C7, amended: for every valid token buffer and every non-empty delimiter set (the
  function asserts both at entry), \<^verbatim>\<open>str_tok\<close> called with the exhausted sentinel returns
  the sentinel and leaves the token buffer as it was.
\<close>

theorem str_tok_null_no_op:
  assumes "str_valid token" and "c_str delim \<noteq> []"
  shows "str_tok junk None token delim = Some (None, token)"
  by (simp add: str_tok_def)

text \<open>C7, amended, at the token buffer that holds \<open>"a"\<close> and the delimiter set of the space.\<close>

theorem str_tok_null_no_op_witness:
  "str_valid token_a \<and> c_str (literal '' '') \<noteq> []
   \<and> str_tok junk0 None token_a (literal '' '') = Some (None, token_a)"
proof -
  have d: "c_str (literal '' '') \<noteq> []" by (simp add: c_str_literal)
  show ?thesis using str_tok_null_no_op[OF token_a_valid d, of junk0] token_a_valid d by simp
qed

text \<open>
  C8: a token that begins with \<open>-\<close> and is none of the six tags is to end the parse with a
  diagnostic of \<^verbatim>\<open>die\<close>. The code tests for a tag with a value by \<^verbatim>\<open>strstr\<close>, which accepts
  every token that occurs inside \<open>"-concurrency -games -openings"\<close>, such as \<open>-c\<close>. With a
  value after it, the parse runs into the assertion of the source, and with \<^verbatim>\<open>NDEBUG\<close> it
  returns options whose \<open>openings\<close> is that value.
\<close>

theorem options_new_short_tag:
  "options_new False junk0 [''c-chess-cli'', ''-c'', ''x''] = Inl Assertion_failed
   \<and> options_new True junk0 [''c-chess-cli'', ''-c'', ''x''] =
       Inr \<lparr>chess960 = False, concurrency = 1, games = 1,
            openings = \<lparr>len = 1, alloc = 16, buf = Some (''x'' @ CHR 0x00 # replicate 14 (CHR ''?''))\<rparr>,
            random = False, repeat = False\<rparr>"
  by code_simp

text \<open>
  C9: for every valid buffer \<open>a\<close>, the self-copy \<^verbatim>\<open>str_cpy_s(a, a)\<close>, whose source is the
  destination itself, leaves \<open>a\<close> as it was. The source pointer of the copy is the
  storage of \<open>a\<close>: \<^verbatim>\<open>str_resize\<close> does not reallocate it and changes no byte of it, and
  \<^verbatim>\<open>memcpy\<close> then copies the bytes onto themselves.
\<close>

theorem str_cpy_s_self:
  assumes "str_valid a"
  shows "str_resize junk a (len a) = Some a \<and> str_cpy_s junk a Dest = Some a"
  using str_resize_same[OF assms, of junk] str_cpy_s_Dest[OF assms, of junk] by simp

text \<open>C9 at the buffer that holds \<open>"a"\<close>.\<close>

theorem str_cpy_s_self_witness:
  "str_valid token_a \<and> str_resize junk0 token_a (len token_a) = Some token_a
   \<and> str_cpy_s junk0 token_a Dest = Some token_a"
  using str_cpy_s_self[OF token_a_valid, of junk0] token_a_valid by simp

text \<open>
  C10: \<^verbatim>\<open>str_del\<close> resets every field of the handle to zero, so a second \<^verbatim>\<open>str_del\<close> of the
  same handle passes \<^verbatim>\<open>NULL\<close> to \<^verbatim>\<open>free\<close>, releases nothing and leaves the handle as it is.
\<close>

theorem str_del_resets_handle:
  "snd (str_del s) = \<lparr>len = 0, alloc = 0, buf = None\<rparr>
   \<and> str_del (snd (str_del s)) = (None, snd (str_del s))"
  by (simp add: str_del_def)

text \<open>
  C5: for every valid output buffer and every byte stream, \<^verbatim>\<open>str_getline\<close> returns the
  final length of the buffer plus one when the scan stopped at a newline, and the final
  length when it stopped at the end of the stream. The buffer then holds the bytes
  before the newline, without the zero bytes among them (\<^verbatim>\<open>str_putc\<close> takes a zero for
  its end marker), and the stream is left after the newline. The hypothesis on the
  length says that the line is shorter than \<open>2 ^ 63\<close> bytes.
\<close>

theorem str_getline_count:
  assumes "str_valid out" and "length (takeWhile (\<lambda>b. b \<noteq> CHR 0x0A) inp) < 2 ^ 63"
  shows "\<exists>out' n rest. str_getline junk out inp = Some (out', n, rest) \<and> str_valid out'
    \<and> content out' = filter (\<lambda>b. b \<noteq> CHR 0x00) (takeWhile (\<lambda>b. b \<noteq> CHR 0x0A) inp)
    \<and> rest = drop 1 (dropWhile (\<lambda>b. b \<noteq> CHR 0x0A) inp)
    \<and> (CHR 0x0A \<in> set inp \<longrightarrow> n = len out' + 1)
    \<and> (CHR 0x0A \<notin> set inp \<longrightarrow> n = len out')"
  using str_getline_spec[OF assms, of junk] by auto

text \<open>
  C5, the example of the claim: on the stream \<open>"foo\nbar"\<close> the first call leaves \<open>"foo"\<close>
  and returns 4, the second call leaves \<open>"bar"\<close> and returns 3.
\<close>

theorem str_getline_count_witness:
  "str_valid token_a
   \<and> length (takeWhile (\<lambda>b. b \<noteq> CHR 0x0A) (''foo'' @ CHR 0x0A # ''bar'')) < 2 ^ 63
   \<and> (\<exists>out'. str_getline junk0 token_a (''foo'' @ CHR 0x0A # ''bar'') = Some (out', 4, ''bar'')
        \<and> content out' = ''foo''
        \<and> (\<exists>out''. str_getline junk0 out' ''bar'' = Some (out'', 3, []) \<and> content out'' = ''bar''))"
proof -
  have h1: "length (takeWhile (\<lambda>b. b \<noteq> CHR 0x0A) (''foo'' @ CHR 0x0A # ''bar'')) < 2 ^ 63" by simp
  have h2: "length (takeWhile (\<lambda>b. b \<noteq> CHR 0x0A) ''bar'') < 2 ^ 63" by simp
  obtain o1 n1 r1 where 1: "str_getline junk0 token_a (''foo'' @ CHR 0x0A # ''bar'') = Some (o1, n1, r1)"
    "str_valid o1" "content o1 = ''foo''" "r1 = ''bar''" "n1 = len o1 + 1"
    using str_getline_count[OF token_a_valid h1, of junk0] by auto
  have "len o1 = 3" using len_eq_content_length[OF 1(2)] 1(3) by simp
  then have n1: "n1 = 4" using 1(5) by simp
  obtain o2 n2 r2 where 2: "str_getline junk0 o1 ''bar'' = Some (o2, n2, r2)"
    "str_valid o2" "content o2 = ''bar''" "r2 = []" "n2 = len o2"
    using str_getline_count[OF 1(2) h2, of junk0] by auto
  have "len o2 = 3" using len_eq_content_length[OF 2(2)] 2(3) by simp
  then have n2: "n2 = 3" using 2(5) by simp
  show ?thesis using token_a_valid h1 1 n1 2 n2
    by (intro conjI exI[of _ o1] exI[of _ o2]) simp_all
qed



text \<open>
  C4: for every valid destination and every integer argument, \<^verbatim>\<open>str_cat_fmt\<close> with \<open>%i\<close>
  (\<^verbatim>\<open>int\<close>), \<open>%I\<close> (\<^verbatim>\<open>intmax_t\<close>), \<open>%u\<close> (\<^verbatim>\<open>unsigned\<close>) or \<open>%U\<close> (\<^verbatim>\<open>uintmax_t\<close>) appends the
  decimal representation of the argument, with a leading \<open>-\<close> exactly for a negative
  signed value; and the template \<open>"%i apples, %u oranges"\<close> with -5 and 3 appends
  \<open>"-5 apples, 3 oranges"\<close>. The hypothesis on the length leaves room for the 21 bytes
  of the longest number below \<open>2 ^ 63\<close> bytes.
\<close>

theorem str_cat_fmt_integers:
  assumes "str_valid dest" and "length (content dest) + 21 < 2 ^ 63"
  shows "(\<exists>d. str_cat_fmt junk dest (literal ''%i'') [Arg_int i] = Some d \<and> str_valid d
      \<and> content d = content dest
          @ (if sint i < 0 then CHR ''-'' # decimal (nat (- sint i)) else decimal (nat (sint i))))
    \<and> (\<exists>d. str_cat_fmt junk dest (literal ''%I'') [Arg_intmax j] = Some d \<and> str_valid d
      \<and> content d = content dest
          @ (if sint j < 0 then CHR ''-'' # decimal (nat (- sint j)) else decimal (nat (sint j))))
    \<and> (\<exists>d. str_cat_fmt junk dest (literal ''%u'') [Arg_unsigned u] = Some d \<and> str_valid d
      \<and> content d = content dest @ decimal (unat u))
    \<and> (\<exists>d. str_cat_fmt junk dest (literal ''%U'') [Arg_uintmax w] = Some d \<and> str_valid d
      \<and> content d = content dest @ decimal (unat w))
    \<and> (\<exists>d. str_cat_fmt junk dest (literal ''%i apples, %u oranges'') [Arg_int (- 5), Arg_unsigned 3]
          = Some d \<and> str_valid d
      \<and> content d = content dest @ ''-5 apples, 3 oranges'')"
proof -
  have z: "CHR 0x00 \<in> set (literal s)" for s by (rule nul_in_literal)
  have ok: "\<forall>a \<in> set [Arg_int i]. arg_ok a" "\<forall>a \<in> set [Arg_intmax j]. arg_ok a"
    "\<forall>a \<in> set [Arg_unsigned u]. arg_ok a" "\<forall>a \<in> set [Arg_uintmax w]. arg_ok a"
    "\<forall>a \<in> set [Arg_int (- 5), Arg_unsigned 3]. arg_ok a"
    by simp_all
  have r1: "render (c_str (literal ''%i'')) [Arg_int i] = Some (decimal_int (sint i))" by simp
  have r2: "render (c_str (literal ''%I'')) [Arg_intmax j] = Some (decimal_int (sint j))" by simp
  have r3: "render (c_str (literal ''%u'')) [Arg_unsigned u] = Some (decimal (unat u))" by simp
  have r4: "render (c_str (literal ''%U'')) [Arg_uintmax w] = Some (decimal (unat w))" by simp
  have r5: "render (c_str (literal ''%i apples, %u oranges'')) [Arg_int (- 5), Arg_unsigned 3]
      = Some ''-5 apples, 3 oranges''"
    by (simp only: c_str_fmt_literal render_example)
  have f1: "length (content dest) + length (decimal_int (sint i)) < 2 ^ 63"
    using assms(2) decimal_int_length32[of i] by linarith
  have f2: "length (content dest) + length (decimal_int (sint j)) < 2 ^ 63"
    using assms(2) decimal_int_length[of j] by linarith
  have f3: "length (content dest) + length (decimal (unat u)) < 2 ^ 63"
    using assms(2) decimal_length32[of u] by linarith
  have f4: "length (content dest) + length (decimal (unat w)) < 2 ^ 63"
    using assms(2) decimal_length64[of w] by linarith
  have f5: "length (content dest) + length ''-5 apples, 3 oranges'' < 2 ^ 63"
    using assms(2) by simp
  have l: "length (c_str (literal ''%i'')) < 2 ^ 63" "length (c_str (literal ''%I'')) < 2 ^ 63"
    "length (c_str (literal ''%u'')) < 2 ^ 63" "length (c_str (literal ''%U'')) < 2 ^ 63"
    "length (c_str (literal ''%i apples, %u oranges'')) < 2 ^ 63"
    by simp_all
  note a = str_cat_fmt_spec[OF assms(1) z l(1) r1 ok(1) f1, where junk = junk]
  note b = str_cat_fmt_spec[OF assms(1) z l(2) r2 ok(2) f2, where junk = junk]
  note c = str_cat_fmt_spec[OF assms(1) z l(3) r3 ok(3) f3, where junk = junk]
  note d = str_cat_fmt_spec[OF assms(1) z l(4) r4 ok(4) f4, where junk = junk]
  note e = str_cat_fmt_spec[OF assms(1) z l(5) r5 ok(5) f5, where junk = junk]
  show ?thesis using a b c d e unfolding decimal_int_def by (intro conjI) assumption+
qed

text \<open>
  C4 at the buffer that holds \<open>"ab"\<close>: -5, the least \<^verbatim>\<open>intmax_t\<close>, the greatest \<^verbatim>\<open>unsigned\<close>
  and the greatest \<^verbatim>\<open>uintmax_t\<close>, and the example of the claim.
\<close>

theorem str_cat_fmt_integers_witness:
  "str_valid buffer_ab \<and> length (content buffer_ab) + 21 < 2 ^ 63
   \<and> (\<exists>d. str_cat_fmt junk0 buffer_ab (literal ''%i'') [Arg_int (- 5)] = Some d
        \<and> content d = ''ab-5'')
   \<and> (\<exists>d. str_cat_fmt junk0 buffer_ab (literal ''%I'') [Arg_intmax (- 9223372036854775808)] = Some d
        \<and> content d = ''ab-9223372036854775808'')
   \<and> (\<exists>d. str_cat_fmt junk0 buffer_ab (literal ''%u'') [Arg_unsigned 4294967295] = Some d
        \<and> content d = ''ab4294967295'')
   \<and> (\<exists>d. str_cat_fmt junk0 buffer_ab (literal ''%U'') [Arg_uintmax 18446744073709551615] = Some d
        \<and> content d = ''ab18446744073709551615'')
   \<and> (\<exists>d. str_cat_fmt junk0 buffer_ab (literal ''%i apples, %u oranges'') [Arg_int (- 5), Arg_unsigned 3]
          = Some d
        \<and> content d = ''ab-5 apples, 3 oranges'')"
proof -
  have c: "content buffer_ab = ''ab''" by (simp add: content_def buffer_ab_def)
  have f: "length (content buffer_ab) + 21 < 2 ^ 63" by (simp add: c)
  have s: "sint (- 5 :: 32 word) < 0" "sint (- 9223372036854775808 :: intmax_t) < 0" by simp_all
  show ?thesis
    using str_cat_fmt_integers[OF buffer_ab_valid f, of junk0 "- 5" "- 9223372036854775808"
        4294967295 18446744073709551615]
      buffer_ab_valid f
    unfolding c by (simp only: s if_True decimal_examples decimal_examples2) auto
qed

text \<open>
  C1, as the specification states it: for every buffer that \<^verbatim>\<open>str_new\<close> or \<^verbatim>\<open>str_dup\<close>
  produces and every finite sequence of the public mutating operations applied to it,
  the three invariants of \<^verbatim>\<open>str_ok\<close> hold after each operation. On the code this fails
  for a source that lies in the storage of the buffer. After \<^verbatim>\<open>str_dup("abxc")\<close> and
  \<^verbatim>\<open>str_cpy(&d, "ab")\<close> the storage holds \<open>"ab"\<close>, a zero byte, \<open>"c"\<close> and a zero byte. Then
  \<^verbatim>\<open>str_cat(&d, d.buf + 3)\<close> appends the string \<open>"c"\<close> at index 3: \<^verbatim>\<open>str_resize\<close> writes the
  new terminator at index 3, over the \<open>"c"\<close>, and \<^verbatim>\<open>memcpy\<close> copies the zero byte it finds
  there to index 2, below the new length 3, so \<^verbatim>\<open>str_ok\<close> is false after the call. And
  when the storage has to grow, the source is read through a pointer into storage that
  \<^verbatim>\<open>realloc\<close> has been given by then: \<^verbatim>\<open>str_cat_s(&d, &d)\<close> on the buffer that
  \<^verbatim>\<open>str_dup("abcdefgh")\<close> makes has no defined result, and nothing holds after it.
\<close>

theorem source_in_storage_breaks_invariants:
  "construct junk0 (Create_from (literal ''abxc'')) = Some buffer_abxc
   \<and> map_option (map str_ok)
        (run_ops junk0 buffer_abxc [Copy_from (Object (literal ''ab'')), Append [Storage 16 3]])
       = Some [True, False]
   \<and> construct junk0 (Create_from (literal ''abcdefgh'')) = Some buffer_abcdefgh
   \<and> run_ops junk0 buffer_abcdefgh [Append_buffers [Dest]] = None"
  by code_simp

text \<open>
  C1, amended: for every buffer that \<^verbatim>\<open>str_new\<close> or \<^verbatim>\<open>str_dup\<close> produces and every finite
  sequence of the public mutating operations applied to it whose sources lie outside
  the storage of the buffer (the self-copy \<^verbatim>\<open>str_cpy_s(a, a)\<close> apart, which is admitted),
  every operation returns, and after each one the three invariants of \<^verbatim>\<open>str_ok\<close> hold:
  the byte at index \<open>len\<close> is zero, no byte below \<open>len\<close> is zero, and \<open>alloc\<close> is at least
  \<^verbatim>\<open>str_round_up(len + 1)\<close>; the storage is \<open>alloc\<close> bytes long. The hypotheses are that
  the arguments are what the functions ask for and that fewer than \<open>2 ^ 63\<close> bytes are
  handled in all.
\<close>

theorem buffer_invariants:
  assumes "constructor_ok c" and "list_all op_ok ops"
    and "constructor_bytes c + sum_list (map op_bytes ops) < 2 ^ 63"
  shows "\<exists>d0 ds. construct junk c = Some d0 \<and> run_ops junk d0 ops = Some ds
    \<and> length ds = length ops \<and> (\<forall>d \<in> set (d0 # ds). str_ok d \<and> owns_alloc d)"
proof -
  have "constructor_bytes c < 2 ^ 63" using assms(3) by simp
  then obtain d0 where d0: "construct junk c = Some d0" "str_valid d0"
    "length (content d0) = constructor_bytes c"
    using construct_spec[OF assms(1), of junk] by blast
  have "length (content d0) + sum_list (map op_bytes ops) < 2 ^ 63" using assms(3) d0(3) by simp
  moreover have "\<forall>x \<in> set ops. op_ok x" using assms(2) by (simp add: list_all_iff)
  ultimately obtain ds where
    "run_ops junk d0 ops = Some ds" "length ds = length ops" "\<forall>d \<in> set ds. str_valid d"
    using run_ops_spec[OF d0(2), of ops junk] by blast
  then show ?thesis using d0(1,2) by (auto simp: str_valid_def)
qed

text \<open>
  C1, amended, at a sequence that uses each of the eight operations and ends with a
  self-copy.
\<close>

theorem buffer_invariants_witness:
  "constructor_ok (Create_from (literal ''ab'')) \<and> list_all op_ok example_ops
   \<and> constructor_bytes (Create_from (literal ''ab'')) + sum_list (map op_bytes example_ops) < 2 ^ 63
   \<and> (\<exists>d0 ds. construct junk0 (Create_from (literal ''ab'')) = Some d0
        \<and> run_ops junk0 d0 example_ops = Some ds \<and> length ds = length example_ops
        \<and> (\<forall>d \<in> set (d0 # ds). str_ok d \<and> owns_alloc d))"
proof -
  have a: "constructor_ok (Create_from (literal ''ab''))" by (simp add: nul_in_literal)
  have b: "list_all op_ok example_ops"
    by (simp add: example_ops_def nul_in_literal buffer_ab_valid buffer_ef_valid render_example)
  have c: "constructor_bytes (Create_from (literal ''ab'')) + sum_list (map op_bytes example_ops) < 2 ^ 63"
    by (simp add: example_ops_def c_str_literal render_example content_def buffer_ab_def buffer_ef_def
        decimal_int_def decimal.simps)
  show ?thesis using buffer_invariants[OF a b c, of junk0] a b c by simp
qed

end
